theory Spec2Isabelle
  imports Complex_Main "HOL-Library.Word" "HOL-Library.Sublist"
begin

section \<open>Go strings and the library functions the converter calls\<close>

text \<open>
  A Go string is a sequence of bytes; it is modelled as a \<^typ>\<open>string\<close>, one
  \<^typ>\<open>char\<close> per byte. Go's \<open>int\<close> is taken to be 64 bits wide
  (\<^typ>\<open>64 word\<close>, read in two's complement by \<^const>\<open>sint\<close>). A run-time
  panic is a value of type \<open>panic\<close>, returned on the left of a sum.
\<close>

datatype panic = NegativeRepeatCount | RepeatTooLong | SliceBoundsOutOfRange

definition nl :: string where
  "nl = [CHR 0x0A]"

text \<open>
  \<open>strings.Split(s, sep)\<close> for a separator of one byte. The result is never empty, so
  the first branch of the \<open>case\<close> is never taken.
\<close>

fun Split :: "string \<Rightarrow> char \<Rightarrow> string list" where
  "Split [] sep = [[]]"
| "Split (x # xs) sep =
     (if x = sep then [] # Split xs sep
      else (case Split xs sep of
              [] \<Rightarrow> [[x]]
            | piece # pieces \<Rightarrow> (x # piece) # pieces))"

text \<open>\<open>strings.Join(elems, sep)\<close>.\<close>

fun Join :: "string list \<Rightarrow> string \<Rightarrow> string" where
  "Join [] sep = []"
| "Join [x] sep = x"
| "Join (x # y # ys) sep = x @ sep @ Join (y # ys) sep"

text \<open>
  \<open>strings.TrimSpace\<close> removes, from both ends, every rune for which
  \<open>unicode.IsSpace\<close> holds. On bytes: the six ASCII white-space characters, and the
  UTF-8 encodings of U+0085, U+00A0, U+1680, U+2000..U+200A, U+2028, U+2029, U+202F,
  U+205F and U+3000. A byte sequence that is no such encoding decodes to another rune
  (or to the error rune), which is not white space.
\<close>

definition spaceRunes :: "string list" where
  "spaceRunes =
    [[CHR 0x09], [CHR 0x0A], [CHR 0x0B], [CHR 0x0C], [CHR 0x0D], [CHR 0x20],
     [CHR 0xC2, CHR 0x85], [CHR 0xC2, CHR 0xA0],
     [CHR 0xE1, CHR 0x9A, CHR 0x80],
     [CHR 0xE2, CHR 0x80, CHR 0x80], [CHR 0xE2, CHR 0x80, CHR 0x81],
     [CHR 0xE2, CHR 0x80, CHR 0x82], [CHR 0xE2, CHR 0x80, CHR 0x83],
     [CHR 0xE2, CHR 0x80, CHR 0x84], [CHR 0xE2, CHR 0x80, CHR 0x85],
     [CHR 0xE2, CHR 0x80, CHR 0x86], [CHR 0xE2, CHR 0x80, CHR 0x87],
     [CHR 0xE2, CHR 0x80, CHR 0x88], [CHR 0xE2, CHR 0x80, CHR 0x89],
     [CHR 0xE2, CHR 0x80, CHR 0x8A],
     [CHR 0xE2, CHR 0x80, CHR 0xA8], [CHR 0xE2, CHR 0x80, CHR 0xA9],
     [CHR 0xE2, CHR 0x80, CHR 0xAF],
     [CHR 0xE2, CHR 0x81, CHR 0x9F],
     [CHR 0xE3, CHR 0x80, CHR 0x80]]"

text \<open>The number of bytes of the white-space rune a string starts with, 0 if none.\<close>

definition spaceWidth :: "string \<Rightarrow> nat" where
  "spaceWidth s =
     (case find (\<lambda>e. prefix e s) spaceRunes of None \<Rightarrow> 0 | Some e \<Rightarrow> length e)"

text \<open>The same at the end of a string.\<close>

definition spaceWidthEnd :: "string \<Rightarrow> nat" where
  "spaceWidthEnd s =
     (case find (\<lambda>e. suffix e s) spaceRunes of None \<Rightarrow> 0 | Some e \<Rightarrow> length e)"

function trimLeftSpace :: "string \<Rightarrow> string" where
  "trimLeftSpace s =
     (if spaceWidth s = 0 then s else trimLeftSpace (drop (spaceWidth s) s))"
  by pat_completeness auto
termination
proof (relation "measure length")
  fix s :: string
  assume "spaceWidth s \<noteq> 0"
  then obtain e where "prefix e s" and "e \<noteq> []"
    by (auto simp: spaceWidth_def find_Some_iff split: option.splits)
  then have "s \<noteq> []"
    by auto
  with \<open>spaceWidth s \<noteq> 0\<close> show "(drop (spaceWidth s) s, s) \<in> measure length"
    by simp
qed simp

function trimRightSpace :: "string \<Rightarrow> string" where
  "trimRightSpace s =
     (if spaceWidthEnd s = 0 then s
      else trimRightSpace (take (length s - spaceWidthEnd s) s))"
  by pat_completeness auto
termination
proof (relation "measure length")
  fix s :: string
  assume "spaceWidthEnd s \<noteq> 0"
  then obtain e where "suffix e s" and "e \<noteq> []"
    by (auto simp: spaceWidthEnd_def find_Some_iff split: option.splits)
  then have "s \<noteq> []"
    by auto
  with \<open>spaceWidthEnd s \<noteq> 0\<close>
  show "(take (length s - spaceWidthEnd s) s, s) \<in> measure length"
    by simp
qed simp

declare trimLeftSpace.simps [simp del] trimRightSpace.simps [simp del]

definition TrimSpace :: "string \<Rightarrow> string" where
  "TrimSpace s = trimRightSpace (trimLeftSpace s)"

text \<open>\<open>strings.HasPrefix\<close>.\<close>

definition HasPrefix :: "string \<Rightarrow> string \<Rightarrow> bool" where
  "HasPrefix s p = prefix p s"

text \<open>\<open>strings.Count(s, substr)\<close> for a substring of one byte.\<close>

definition Count :: "string \<Rightarrow> char \<Rightarrow> nat" where
  "Count s c = length (filter (\<lambda>x. x = c) s)"

text \<open>
  \<open>strings.Repeat(s, count)\<close> returns at once for the counts 0 and 1, panics on a
  negative count, returns the empty string for an empty \<open>s\<close>, and otherwise allocates
  the output before it fills it. It panics when the output cannot be allocated: when its
  length does not fit an \<open>int\<close>, or when the allocation is refused
  (\<open>makeslice: len out of range\<close>). The largest length that is allocated depends on
  the platform and on the memory at hand (on 64-bit platforms it is at most \<open>2^48\<close>);
  it is the parameter \<open>maxLen\<close> of the model.
\<close>

definition Repeat :: "nat \<Rightarrow> string \<Rightarrow> int \<Rightarrow> panic + string" where
  "Repeat maxLen s n =
     (if n = 0 then Inr []
      else if n = 1 then Inr s
      else if n < 0 then Inl NegativeRepeatCount
      else if s = [] then Inr []
      else if maxLen < length s * nat n then Inl RepeatTooLong
      else Inr (concat (replicate (nat n) s)))"

text \<open>\<open>strings.TrimLeft(s, cutset)\<close> for a cutset of ASCII bytes.\<close>

definition TrimLeft :: "string \<Rightarrow> string \<Rightarrow> string" where
  "TrimLeft s cutset = dropWhile (\<lambda>c. c \<in> set cutset) s"

text \<open>The slice expression \<open>s[n:]\<close> panics when \<open>n\<close> exceeds the length.\<close>

definition sliceFrom :: "string \<Rightarrow> nat \<Rightarrow> panic + string" where
  "sliceFrom s n = (if length s < n then Inl SliceBoundsOutOfRange else Inr (drop n s))"

text \<open>\<open>strings.SplitN(s, sep, 2)\<close> for a separator of one byte: cut at its first occurrence.\<close>

definition SplitN2 :: "string \<Rightarrow> char \<Rightarrow> string list" where
  "SplitN2 s sep =
     (case dropWhile (\<lambda>c. c \<noteq> sep) s of
        [] \<Rightarrow> [s]
      | _ # rest \<Rightarrow> [takeWhile (\<lambda>c. c \<noteq> sep) s, rest])"

text \<open>
  The regular expression \<open>^\d+\.\s\<close>: in Go's syntax \<open>\d\<close> is \<open>[0-9]\<close> and \<open>\s\<close> is
  \<open>[\t\n\f\r ]\<close>. It matches exactly when the longest run of digits at the start is not
  empty and is followed by a dot and one of these five characters.
\<close>

definition reDigit :: "char \<Rightarrow> bool" where
  "reDigit c = (c \<in> set ''0123456789'')"

definition reSpace :: "char \<Rightarrow> bool" where
  "reSpace c = (c \<in> set [CHR 0x09, CHR 0x0A, CHR 0x0C, CHR 0x0D, CHR 0x20])"

definition numberedMatch :: "string \<Rightarrow> bool" where
  "numberedMatch s =
     (takeWhile reDigit s \<noteq> [] \<and>
      (case dropWhile reDigit s of
         d # w # _ \<Rightarrow> d = CHR ''.'' \<and> reSpace w
       | _ \<Rightarrow> False))"

section \<open>Reconstruction: \<open>cleanupMarkdownText\<close>\<close>

record MarkdownOptions =
  HeaderLevelAdjust :: "64 word"
  AddFrontmatter :: bool
  CleanupText :: bool

definition DefaultMarkdownOptions :: MarkdownOptions where
  "DefaultMarkdownOptions =
     \<lparr>HeaderLevelAdjust = 1, AddFrontmatter = True, CleanupText = True\<rparr>"

text \<open>
  The \<open>switch\<close> of the loop body, taken for a trimmed line outside a code block: the
  rewritten line, or the panic of \<open>strings.Repeat\<close>. The first argument of this and
  of the following functions is the allocation limit \<open>maxLen\<close> that
  \<open>strings.Repeat\<close> runs against. The examples further down take a limit of 4096
  bytes.
\<close>

definition rewriteLine :: "nat \<Rightarrow> MarkdownOptions \<Rightarrow> string \<Rightarrow> panic + string" where
  "rewriteLine maxLen opts line =
     (if HasPrefix line ''#'' then
        (let headerLevel = of_nat (Count line CHR ''#'') + HeaderLevelAdjust opts in
         case Repeat maxLen ''#'' (sint headerLevel) of
           Inl p \<Rightarrow> Inl p
         | Inr hashes \<Rightarrow> Inr (hashes @ '' '' @ TrimSpace (TrimLeft line ''#'')))
      else if HasPrefix line ''* '' \<or> HasPrefix line ''- '' then
        (case sliceFrom line 2 of
           Inl p \<Rightarrow> Inl p
         | Inr rest \<Rightarrow> Inr (''- '' @ TrimSpace rest))
      else if numberedMatch line then
        (let parts = SplitN2 line CHR ''.'' in
         if length parts = 2 then Inr (parts ! 0 @ ''.'' @ TrimSpace (parts ! 1))
         else Inr line)
      else Inr line)"

text \<open>
  One iteration of the loop over the lines. The state is the slice \<open>result\<close> and the
  flag \<open>inCodeBlock\<close>; \<open>continue\<close> leaves both as they are.
\<close>

definition cleanupLine ::
  "nat \<Rightarrow> MarkdownOptions \<Rightarrow> string list \<times> bool \<Rightarrow> string \<Rightarrow>
     panic + string list \<times> bool" where
  "cleanupLine maxLen opts st raw =
     (let result = fst st; inCodeBlock = snd st; line = TrimSpace raw in
      if line = [] \<and> length result > 0 \<and> last result = [] then Inr (result, inCodeBlock)
      else if HasPrefix line ''```'' then Inr (result @ [line], \<not> inCodeBlock)
      else if \<not> inCodeBlock then
        (case rewriteLine maxLen opts line of
           Inl p \<Rightarrow> Inl p
         | Inr line' \<Rightarrow> Inr (result @ [line'], inCodeBlock))
      else Inr (result @ [line], inCodeBlock))"

fun cleanupLoop ::
  "nat \<Rightarrow> MarkdownOptions \<Rightarrow> string list \<times> bool \<Rightarrow> string list \<Rightarrow>
     panic + string list \<times> bool" where
  "cleanupLoop maxLen opts st [] = Inr st"
| "cleanupLoop maxLen opts st (raw # lines) =
     (case cleanupLine maxLen opts st raw of
        Inl p \<Rightarrow> Inl p
      | Inr st' \<Rightarrow> cleanupLoop maxLen opts st' lines)"

definition cleanupMarkdownText ::
  "nat \<Rightarrow> MarkdownOptions \<Rightarrow> string \<Rightarrow> panic + string" where
  "cleanupMarkdownText maxLen opts text =
     (case cleanupLoop maxLen opts ([], False) (Split text CHR 0x0A) of
        Inl p \<Rightarrow> Inl p
      | Inr st \<Rightarrow> Inr (Join (fst st) nl))"

text \<open>
  \<open>PDFToMarkdown\<close>, from the extracted text to the bytes written to the Markdown file.
  Opening and reading the PDF and writing the file are outside the model: \<open>title\<close> is
  the file's base name, \<open>date\<close> the formatted current date and \<open>extractedText\<close> what
  the PDF reader returned.
\<close>

definition frontmatter :: "string \<Rightarrow> string \<Rightarrow> string" where
  "frontmatter title date =
     ''---'' @ nl @ ''title: '' @ title @ nl @ ''source: remarkable'' @ nl @
     ''date: '' @ date @ nl @ ''---'' @ nl @ nl"

definition PDFToMarkdown ::
  "nat \<Rightarrow> MarkdownOptions \<Rightarrow> string \<Rightarrow> string \<Rightarrow> string \<Rightarrow> panic + string" where
  "PDFToMarkdown maxLen opts title date extractedText =
     (let content = (if AddFrontmatter opts then frontmatter title date else []) in
      if CleanupText opts then
        (case cleanupMarkdownText maxLen opts extractedText of
           Inl p \<Rightarrow> Inl p
         | Inr cleaned \<Rightarrow> Inr (content @ cleaned))
      else Inr (content @ extractedText))"

section \<open>Rendering: \<open>processMarkdown\<close>\<close>

text \<open>
  The font sizes are \<open>float64\<close> values; they are modelled as reals, which is exact for
  the small integers the renderer computes with.
\<close>

record PDFOptions =
  Margins :: real
  FontSize :: real
  MainFont :: string
  MonoFont :: string
  PageSize :: string
  ColorLinks :: bool
  TOC :: bool
  Highlight :: bool

definition DefaultPDFOptions :: PDFOptions where
  "DefaultPDFOptions =
     \<lparr>Margins = 20, FontSize = 11, MainFont = ''Arial'', MonoFont = ''Courier'',
      PageSize = ''A4'', ColorLinks = True, TOC = True, Highlight = True\<rparr>"

text \<open>
  The syntax tree of the Markdown parser, with the node types the renderer tells apart;
  \<open>Other\<close> stands for every other container. \<open>Text\<close> and \<open>CodeBlock\<close> are leaves
  that carry their literal.
\<close>

datatype node =
    Document "node list"
  | Heading int "node list"
  | Text string
  | CodeBlock string
  | Link "node list"
  | Paragraph "node list"
  | List "node list"
  | ListItem "node list"
  | Other "node list"

text \<open>The calls the renderer makes on the PDF writer, in the order it makes them.\<close>

datatype pdf_op =
    SetFont string string real
  | Ln real
  | MultiCell real real string string string bool
  | SetFillColor int int int
  | SetTextColor int int int
  | Write real string

text \<open>The string literal that \<open>processMarkdown\<close> writes before a list item, byte for byte.\<close>

definition bulletGlyph :: string where
  "bulletGlyph =
     [CHR 0xC3, CHR 0xA2, CHR 0xE2, CHR 0x82, CHR 0xAC, CHR 0xC2, CHR 0xA2, CHR 0x20]"

text \<open>
  The visitor, on entering a node. The state is the flag \<open>inCodeBlock\<close> and the calls
  made so far.
\<close>

fun visit :: "PDFOptions \<Rightarrow> node \<Rightarrow> bool \<times> pdf_op list \<Rightarrow> bool \<times> pdf_op list" where
  "visit opts (Heading level cs) (inCodeBlock, ops) =
     (inCodeBlock, ops @ [SetFont (MainFont opts) ''B'' (16 - real_of_int level), Ln 5])"
| "visit opts (Text literal) (inCodeBlock, ops) =
     (inCodeBlock,
      ops @ (if inCodeBlock then [SetFont (MonoFont opts) [] (FontSize opts)] else [])
          @ [MultiCell 0 5 literal [] [] (inCodeBlock \<and> Highlight opts)]
          @ (if inCodeBlock then [SetFont (MainFont opts) [] (FontSize opts)] else []))"
| "visit opts (CodeBlock literal) (inCodeBlock, ops) =
     (False,
      ops @ [SetFont (MonoFont opts) [] (FontSize opts)]
          @ (if Highlight opts then [SetFillColor 245 245 245] else [])
          @ [MultiCell 0 5 literal [] [] (Highlight opts),
             SetFont (MainFont opts) [] (FontSize opts)])"
| "visit opts (Link cs) (inCodeBlock, ops) =
     (inCodeBlock, ops @ (if ColorLinks opts then [SetTextColor 0 0 255] else []))"
| "visit opts (Paragraph cs) (inCodeBlock, ops) = (inCodeBlock, ops @ [Ln 5])"
| "visit opts (List cs) (inCodeBlock, ops) = (inCodeBlock, ops @ [Ln 3])"
| "visit opts (ListItem cs) (inCodeBlock, ops) = (inCodeBlock, ops @ [Write 5 bulletGlyph])"
| "visit opts (Document cs) st = st"
| "visit opts (Other cs) st = st"

text \<open>
  \<open>ast.WalkFunc\<close>: the visitor is called on a node, then the walk goes through the
  node's children in order. On leaving a node the visitor of \<open>processMarkdown\<close> does
  nothing.
\<close>

fun walk :: "PDFOptions \<Rightarrow> node \<Rightarrow> bool \<times> pdf_op list \<Rightarrow> bool \<times> pdf_op list"
  and walkChildren ::
    "PDFOptions \<Rightarrow> node list \<Rightarrow> bool \<times> pdf_op list \<Rightarrow> bool \<times> pdf_op list" where
  "walk opts (Document cs) st = walkChildren opts cs (visit opts (Document cs) st)"
| "walk opts (Heading level cs) st = walkChildren opts cs (visit opts (Heading level cs) st)"
| "walk opts (Text literal) st = visit opts (Text literal) st"
| "walk opts (CodeBlock literal) st = visit opts (CodeBlock literal) st"
| "walk opts (Link cs) st = walkChildren opts cs (visit opts (Link cs) st)"
| "walk opts (Paragraph cs) st = walkChildren opts cs (visit opts (Paragraph cs) st)"
| "walk opts (List cs) st = walkChildren opts cs (visit opts (List cs) st)"
| "walk opts (ListItem cs) st = walkChildren opts cs (visit opts (ListItem cs) st)"
| "walk opts (Other cs) st = walkChildren opts cs (visit opts (Other cs) st)"
| "walkChildren opts [] st = st"
| "walkChildren opts (c # cs) st = walkChildren opts cs (walk opts c st)"

text \<open>
  \<open>processMarkdown\<close>. The parser is a library outside the repository: it is the
  parameter \<open>parse\<close>, a function from the content to a tree, as its Go signature has no
  error result. The model returns the calls made on the PDF writer and the error value
  (\<open>None\<close> is \<open>nil\<close>).
\<close>

definition processMarkdown ::
  "PDFOptions \<Rightarrow> (string \<Rightarrow> node) \<Rightarrow> string \<Rightarrow> pdf_op list \<times> string option" where
  "processMarkdown opts parse content =
     (let doc = parse content;
          st = walk opts doc (False, [SetFont (MainFont opts) [] (FontSize opts)])
      in (snd st, None))"

section \<open>Notions used in the statements and proofs\<close>

text \<open>The level of a heading line as a reader sees it: the number of leading \<open>#\<close>.\<close>

definition leadingHashes :: "string \<Rightarrow> nat" where
  "leadingHashes s = length (takeWhile (\<lambda>c. c = CHR ''#'') s)"

text \<open>
  What the loop does with a line it does not rewrite: an empty line that follows an empty
  last element of \<open>result\<close> is skipped, any other line is appended.
\<close>

definition appendCollapsing :: "string list \<Rightarrow> string \<Rightarrow> string list" where
  "appendCollapsing result line =
     (if line = [] \<and> result \<noteq> [] \<and> last result = [] then result else result @ [line])"

text \<open>No two neighbouring elements of a list of lines are both empty.\<close>

fun noBlankPair :: "string list \<Rightarrow> bool" where
  "noBlankPair [] = True"
| "noBlankPair [x] = True"
| "noBlankPair (x # y # ys) = (\<not> (x = [] \<and> y = []) \<and> noBlankPair (y # ys))"


fun isBoldFont :: "pdf_op \<Rightarrow> bool" where
  "isBoldFont (SetFont family style pt) = (style = ''B'')"
| "isBoldFont _ = False"


text \<open>The levels of the \<open>Heading\<close> nodes of a tree, in the order of the walk.\<close>

fun headingLevels :: "node \<Rightarrow> int list" and headingLevelsList :: "node list \<Rightarrow> int list" where
  "headingLevels (Document cs) = headingLevelsList cs"
| "headingLevels (Heading level cs) = level # headingLevelsList cs"
| "headingLevels (Text literal) = []"
| "headingLevels (CodeBlock literal) = []"
| "headingLevels (Link cs) = headingLevelsList cs"
| "headingLevels (Paragraph cs) = headingLevelsList cs"
| "headingLevels (List cs) = headingLevelsList cs"
| "headingLevels (ListItem cs) = headingLevelsList cs"
| "headingLevels (Other cs) = headingLevelsList cs"
| "headingLevelsList [] = []"
| "headingLevelsList (c # cs) = headingLevels c @ headingLevelsList cs"




text \<open>
  Bytes and strings as the trimming sees them: the ASCII white-space bytes, the ASCII
  bytes, the ASCII bytes that are not white space, the two shapes of a white-space rune
  (one ASCII white-space byte, or several bytes none of which is ASCII), and the strings
  that neither start nor end with a white-space rune.
\<close>

definition asciiSpace :: "char \<Rightarrow> bool" where
  "asciiSpace c = (c \<in> set [CHR 0x09, CHR 0x0A, CHR 0x0B, CHR 0x0C, CHR 0x0D, CHR 0x20])"

definition asciiByte :: "char \<Rightarrow> bool" where
  "asciiByte c = (of_char c < (128::nat))"

definition plainByte :: "char \<Rightarrow> bool" where
  "plainByte c = (asciiByte c \<and> \<not> asciiSpace c)"

definition runeShape :: "string \<Rightarrow> bool" where
  "runeShape e =
     (case e of
        [] \<Rightarrow> False
      | [c] \<Rightarrow> asciiSpace c
      | _ \<Rightarrow> list_all (\<lambda>b. \<not> asciiByte b) e)"

definition trimmed :: "string \<Rightarrow> bool" where
  "trimmed s = (spaceWidth s = 0 \<and> spaceWidthEnd s = 0)"

text \<open>
  A line that the cleanup, outside a code block, emits again as it is: its trimmed form
  is not empty, is no fence marker and is rewritten to the line itself.
\<close>

definition fixedLine :: "nat \<Rightarrow> MarkdownOptions \<Rightarrow> string \<Rightarrow> bool" where
  "fixedLine maxLen opts out =
     (TrimSpace out \<noteq> [] \<and> \<not> HasPrefix (TrimSpace out) ''```'' \<and>
      rewriteLine maxLen opts (TrimSpace out) = Inr out)"

text \<open>
  The condition on a line under which a second cleanup leaves its heading alone: if the
  trimmed line starts with \<open>#\<close>, the adjustment is 0 and no \<open>#\<close> follows the leading
  run.
\<close>

definition headingsPlain :: "MarkdownOptions \<Rightarrow> string \<Rightarrow> bool" where
  "headingsPlain opts raw =
     (HasPrefix (TrimSpace raw) ''#'' \<longrightarrow>
        HeaderLevelAdjust opts = 0 \<and> CHR ''#'' \<notin> set (TrimLeft (TrimSpace raw) ''#''))"

section \<open>Lemmas on trimming, splitting and joining\<close>

lemma spaceRunes_all_shape: "list_all runeShape spaceRunes"
  by code_simp

lemma spaceRunes_shape:
  assumes "e \<in> set spaceRunes"
  shows "(\<exists>c. e = [c] \<and> asciiSpace c) \<or> (2 \<le> length e \<and> (\<forall>b \<in> set e. \<not> asciiByte b))"
proof -
  from assms spaceRunes_all_shape have "runeShape e"
    by (simp add: list_all_iff)
  then show ?thesis
    by (auto simp: runeShape_def list_all_iff split: list.splits)
qed

lemma spaceRunes_nonempty: "e \<in> set spaceRunes \<Longrightarrow> e \<noteq> []"
  using spaceRunes_shape by fastforce

lemma asciiSpace_rune: "asciiSpace c \<Longrightarrow> [c] \<in> set spaceRunes"
  by (auto simp: spaceRunes_def asciiSpace_def)

lemma asciiSpace_ascii: "asciiSpace c \<Longrightarrow> asciiByte c"
  by (auto simp: asciiSpace_def asciiByte_def)

lemma spaceWidth_zero_iff: "spaceWidth s = 0 \<longleftrightarrow> (\<forall>e \<in> set spaceRunes. \<not> prefix e s)"
  by (auto simp: spaceWidth_def find_None_iff find_Some_iff spaceRunes_nonempty
      split: option.splits)

lemma spaceWidthEnd_zero_iff: "spaceWidthEnd s = 0 \<longleftrightarrow> (\<forall>e \<in> set spaceRunes. \<not> suffix e s)"
  by (auto simp: spaceWidthEnd_def find_None_iff find_Some_iff spaceRunes_nonempty
      split: option.splits)

lemma spaceWidth_prefix:
  assumes "spaceWidth s \<noteq> 0"
  shows "take (spaceWidth s) s \<in> set spaceRunes \<and> spaceWidth s \<le> length s"
proof -
  from assms obtain e where e: "find (\<lambda>e. prefix e s) spaceRunes = Some e"
    by (auto simp: spaceWidth_def split: option.splits)
  then have "e \<in> set spaceRunes" "prefix e s"
    by (auto simp: find_Some_iff)
  moreover from e have "spaceWidth s = length e"
    by (simp add: spaceWidth_def)
  ultimately show ?thesis
    by (auto simp: prefix_def)
qed

lemma spaceWidthEnd_suffix:
  assumes "spaceWidthEnd s \<noteq> 0"
  shows "drop (length s - spaceWidthEnd s) s \<in> set spaceRunes \<and> spaceWidthEnd s \<le> length s"
proof -
  from assms obtain e where e: "find (\<lambda>e. suffix e s) spaceRunes = Some e"
    by (auto simp: spaceWidthEnd_def split: option.splits)
  then have "e \<in> set spaceRunes" "suffix e s"
    by (auto simp: find_Some_iff)
  moreover from e have "spaceWidthEnd s = length e"
    by (simp add: spaceWidthEnd_def)
  ultimately show ?thesis
    by (auto simp: suffix_def)
qed

lemma spaceWidth_trimLeftSpace: "spaceWidth (trimLeftSpace s) = 0"
  by (induction s rule: trimLeftSpace.induct) (subst trimLeftSpace.simps, simp)

lemma spaceWidthEnd_trimRightSpace: "spaceWidthEnd (trimRightSpace s) = 0"
  by (induction s rule: trimRightSpace.induct) (subst trimRightSpace.simps, simp)

lemma trimLeftSpace_id: "spaceWidth s = 0 \<Longrightarrow> trimLeftSpace s = s"
  by (subst trimLeftSpace.simps) simp

lemma trimRightSpace_id: "spaceWidthEnd s = 0 \<Longrightarrow> trimRightSpace s = s"
  by (subst trimRightSpace.simps) simp

lemma trimLeftSpace_suffix: "suffix (trimLeftSpace s) s"
proof (induction s rule: trimLeftSpace.induct)
  case (1 s)
  show ?case
  proof (cases "spaceWidth s = 0")
    case True
    then show ?thesis by (simp add: trimLeftSpace_id)
  next
    case False
    with 1 have "suffix (trimLeftSpace (drop (spaceWidth s) s)) (drop (spaceWidth s) s)"
      by simp
    then have "suffix (trimLeftSpace (drop (spaceWidth s) s)) s"
      using suffix_drop suffix_order.trans by blast
    with False show ?thesis
      by (subst trimLeftSpace.simps) simp
  qed
qed

lemma trimRightSpace_prefix: "prefix (trimRightSpace s) s"
proof (induction s rule: trimRightSpace.induct)
  case (1 s)
  show ?case
  proof (cases "spaceWidthEnd s = 0")
    case True
    then show ?thesis by (simp add: trimRightSpace_id)
  next
    case False
    with 1 have "prefix (trimRightSpace (take (length s - spaceWidthEnd s) s))
                   (take (length s - spaceWidthEnd s) s)"
      by simp
    then have "prefix (trimRightSpace (take (length s - spaceWidthEnd s) s)) s"
      using take_is_prefix prefix_order.trans by blast
    with False show ?thesis
      by (subst trimRightSpace.simps) simp
  qed
qed

lemma spaceWidth_prefix_mono:
  assumes "prefix p s" "spaceWidth s = 0"
  shows "spaceWidth p = 0"
  using assms prefix_order.trans by (fastforce simp: spaceWidth_zero_iff)

lemma trimmed_TrimSpace: "trimmed (TrimSpace s)"
  unfolding trimmed_def TrimSpace_def
  using spaceWidth_prefix_mono [OF trimRightSpace_prefix spaceWidth_trimLeftSpace]
  by (simp add: spaceWidthEnd_trimRightSpace)

lemma TrimSpace_trimmed: "trimmed s \<Longrightarrow> TrimSpace s = s"
  by (simp add: trimmed_def TrimSpace_def trimLeftSpace_id trimRightSpace_id)

lemma TrimSpace_idem: "TrimSpace (TrimSpace s) = TrimSpace s"
  by (simp add: TrimSpace_trimmed trimmed_TrimSpace)

lemma TrimSpace_sublist: "\<exists>a b. s = a @ TrimSpace s @ b"
proof -
  from trimLeftSpace_suffix obtain a where a: "s = a @ trimLeftSpace s"
    by (auto simp: suffix_def)
  from trimRightSpace_prefix obtain b where "trimLeftSpace s = TrimSpace s @ b"
    by (auto simp: prefix_def TrimSpace_def)
  with a show ?thesis
    by metis
qed

lemma set_TrimSpace: "set (TrimSpace s) \<subseteq> set s"
  using TrimSpace_sublist [of s] by (metis Un_iff set_append subsetI)

lemma length_TrimSpace: "length (TrimSpace s) \<le> length s"
  using TrimSpace_sublist [of s] by (metis le_add1 le_add2 le_trans length_append)

lemma find_SomeD: "find P xs = Some x \<Longrightarrow> P x \<and> x \<in> set xs"
  by (induction xs) (auto split: if_splits)

lemma spaceWidth_plain: 
  assumes "plainByte c"
  shows "spaceWidth (c # s) = 0"
proof -
  have "\<not> prefix e (c # s)" if e: "e \<in> set spaceRunes" for e
  proof
    assume p: "prefix e (c # s)"
    from spaceRunes_nonempty [OF e] p have "hd e = c" "c \<in> set e"
      by (cases e; simp)+
    with spaceRunes_shape [OF e] assms show False
      by (auto simp: plainByte_def)
  qed
  then show ?thesis
    by (simp add: spaceWidth_zero_iff)
qed

lemma spaceWidthEnd_plain:
  assumes "plainByte c"
  shows "spaceWidthEnd (s @ [c]) = 0"
proof -
  have "\<not> suffix e (s @ [c])" if e: "e \<in> set spaceRunes" for e
  proof
    assume p: "suffix e (s @ [c])"
    from spaceRunes_nonempty [OF e] p have "last e = c" "c \<in> set e"
      by (cases e rule: rev_cases; simp)+
    with spaceRunes_shape [OF e] assms show False
      by (auto simp: plainByte_def)
  qed
  then show ?thesis
    by (simp add: spaceWidthEnd_zero_iff)
qed

lemma spaceWidth_asciiSpace:
  assumes "asciiSpace c"
  shows "spaceWidth (c # s) = 1"
proof -
  have "prefix [c] (c # s)"
    by simp
  with asciiSpace_rune [OF assms] obtain e where
    e: "find (\<lambda>e. prefix e (c # s)) spaceRunes = Some e"
    by (cases "find (\<lambda>e. prefix e (c # s)) spaceRunes") (auto simp: find_None_iff)
  then have in_runes: "e \<in> set spaceRunes" and p: "prefix e (c # s)"
    by (auto dest: find_SomeD)
  from spaceRunes_nonempty [OF in_runes] p have "c \<in> set e"
    by (cases e) simp_all
  with spaceRunes_shape [OF in_runes] asciiSpace_ascii [OF assms] have "length e = 1"
    by auto
  with e show ?thesis
    by (simp add: spaceWidth_def)
qed

lemma spaceWidthEnd_asciiSpace:
  assumes "asciiSpace c"
  shows "spaceWidthEnd (s @ [c]) = 1"
proof -
  have "suffix [c] (s @ [c])"
    by simp
  with asciiSpace_rune [OF assms] obtain e where
    e: "find (\<lambda>e. suffix e (s @ [c])) spaceRunes = Some e"
    by (cases "find (\<lambda>e. suffix e (s @ [c])) spaceRunes") (auto simp: find_None_iff)
  then have in_runes: "e \<in> set spaceRunes" and p: "suffix e (s @ [c])"
    by (auto dest: find_SomeD)
  from spaceRunes_nonempty [OF in_runes] p have "c \<in> set e"
    by (cases e rule: rev_cases) simp_all
  with spaceRunes_shape [OF in_runes] asciiSpace_ascii [OF assms] have "length e = 1"
    by auto
  with e show ?thesis
    by (simp add: spaceWidthEnd_def)
qed

lemma spaceWidthEnd_ascii_append:
  assumes x: "\<forall>c \<in> set x. asciiByte c"
    and t: "t \<noteq> []" "spaceWidthEnd t = 0"
  shows "spaceWidthEnd (x @ t) = 0"
proof -
  have "\<not> suffix e (x @ t)" if e: "e \<in> set spaceRunes" for e
  proof
    assume "suffix e (x @ t)"
    then have "suffix e t \<or> (\<exists>x'. suffix x' x \<and> e = x' @ t)"
      by (auto simp: suffix_append)
    then have "suffix e t \<or> (\<exists>x'. x' \<noteq> [] \<and> suffix x' x \<and> e = x' @ t)"
      by (metis append_Nil suffix_order.refl)
    then consider "suffix e t" | x' where "x' \<noteq> []" "suffix x' x" "e = x' @ t"
      by blast
    then show False
    proof cases
      case 1
      with t(2) e show False
        by (simp add: spaceWidthEnd_zero_iff)
    next
      case 2
      then have "2 \<le> length e" "hd x' \<in> set e" "hd x' \<in> set x"
        using t(1) by (cases x'; cases t; auto simp: suffix_def)+
      with spaceRunes_shape [OF e] x show False
        by auto
    qed
  qed
  then show ?thesis
    by (simp add: spaceWidthEnd_zero_iff)
qed

lemma trimLeftSpace_empty:
  assumes "trimLeftSpace s = []" "s \<noteq> []"
  shows "spaceWidthEnd s \<noteq> 0"
  using assms
proof (induction s rule: trimLeftSpace.induct)
  case (1 s)
  have w: "spaceWidth s \<noteq> 0"
  proof
    assume "spaceWidth s = 0"
    then have "trimLeftSpace s = s"
      by (rule trimLeftSpace_id)
    with 1(2,3) show False
      by simp
  qed
  let ?r = "drop (spaceWidth s) s"
  from w 1(2) have r: "trimLeftSpace ?r = []"
    by (subst (asm) trimLeftSpace.simps) simp
  show ?case
  proof (cases "?r = []")
    case True
    with spaceWidth_prefix [OF w] have "s \<in> set spaceRunes"
      by simp
    then show ?thesis
      by (auto simp: spaceWidthEnd_zero_iff)
  next
    case False
    from 1(1) [OF w r False] obtain e where "e \<in> set spaceRunes" "suffix e ?r"
      by (auto simp: spaceWidthEnd_zero_iff)
    then have "suffix e s"
      using suffix_drop suffix_order.trans by blast
    with \<open>e \<in> set spaceRunes\<close> show ?thesis
      by (auto simp: spaceWidthEnd_zero_iff)
  qed
qed

lemma trimRightSpace_empty:
  assumes "trimRightSpace s = []" "s \<noteq> []"
  shows "spaceWidth s \<noteq> 0"
  using assms
proof (induction s rule: trimRightSpace.induct)
  case (1 s)
  have w: "spaceWidthEnd s \<noteq> 0"
  proof
    assume "spaceWidthEnd s = 0"
    then have "trimRightSpace s = s"
      by (rule trimRightSpace_id)
    with 1(2,3) show False
      by simp
  qed
  let ?r = "take (length s - spaceWidthEnd s) s"
  from w 1(2) have r: "trimRightSpace ?r = []"
    by (subst (asm) trimRightSpace.simps) simp
  show ?case
  proof (cases "?r = []")
    case True
    with spaceWidthEnd_suffix [OF w] 1(3) have "length s - spaceWidthEnd s = 0"
      by auto
    with spaceWidthEnd_suffix [OF w] have "s \<in> set spaceRunes"
      by simp
    then show ?thesis
      by (auto simp: spaceWidth_zero_iff)
  next
    case False
    from 1(1) [OF w r False] obtain e where "e \<in> set spaceRunes" "prefix e ?r"
      by (auto simp: spaceWidth_zero_iff)
    then have "prefix e s"
      using take_is_prefix prefix_order.trans by blast
    with \<open>e \<in> set spaceRunes\<close> show ?thesis
      by (auto simp: spaceWidth_zero_iff)
  qed
qed

text \<open>What is left of a trimmed string after a prefix is cut off does not trim to nothing.\<close>

lemma TrimSpace_rest_nonempty:
  assumes "trimmed (x @ rest)" "rest \<noteq> []"
  shows "TrimSpace rest \<noteq> []"
proof
  assume empty: "TrimSpace rest = []"
  have endz: "spaceWidthEnd rest = 0"
  proof -
    have "\<not> suffix e rest" if "e \<in> set spaceRunes" for e
    proof
      assume "suffix e rest"
      then have "suffix e (x @ rest)"
        by (simp add: suffix_appendI)
      with that assms(1) show False
        by (simp add: trimmed_def spaceWidthEnd_zero_iff)
    qed
    then show ?thesis
      by (simp add: spaceWidthEnd_zero_iff)
  qed
  from trimLeftSpace_empty [of rest] endz assms(2) have "trimLeftSpace rest \<noteq> []"
    by auto
  moreover have "spaceWidth (trimLeftSpace rest) = 0"
    by (rule spaceWidth_trimLeftSpace)
  ultimately show False
    using trimRightSpace_empty [of "trimLeftSpace rest"] empty
    by (simp add: TrimSpace_def)
qed

lemma Split_nonempty: "Split s sep \<noteq> []"
  by (induction s) (auto split: list.splits)

lemma Split_elems: "x \<in> set (Split s sep) \<Longrightarrow> sep \<notin> set x \<and> length x \<le> length s"
proof (induction s arbitrary: x)
  case Nil
  then show ?case by simp
next
  case (Cons a s)
  then show ?case
    by (cases "Split s sep") (fastforce split: if_splits)+
qed

lemma Split_no_sep: "sep \<notin> set x \<Longrightarrow> Split x sep = [x]"
  by (induction x) auto

lemma Split_append_sep:
  "sep \<notin> set x \<Longrightarrow> Split (x @ sep # s) sep = x # Split s sep"
  by (induction x) auto

lemma Split_Join:
  assumes "xs \<noteq> []" "\<forall>x \<in> set xs. sep \<notin> set x"
  shows "Split (Join xs [sep]) sep = xs"
  using assms
proof (induction xs "[sep]" rule: Join.induct)
  case 1
  then show ?case by simp
next
  case (2 x)
  then show ?case by (simp add: Split_no_sep)
next
  case (3 x y ys)
  then show ?case by (simp add: Split_append_sep)
qed

lemma TrimSpace_Nil: "TrimSpace [] = []"
  using length_TrimSpace [of "[]"] by simp

lemma trimmed_Nil: "trimmed []"
  using trimmed_TrimSpace [of "[]"] by (simp add: TrimSpace_Nil)

lemma TrimSpace_space_Cons:
  assumes "asciiSpace c"
  shows "TrimSpace (c # s) = TrimSpace s"
proof -
  have "trimLeftSpace (c # s) = trimLeftSpace s"
    by (subst trimLeftSpace.simps) (simp add: spaceWidth_asciiSpace [OF assms])
  then show ?thesis
    by (simp add: TrimSpace_def)
qed

lemma trimRightSpace_space_snoc:
  assumes "asciiSpace c"
  shows "trimRightSpace (s @ [c]) = trimRightSpace s"
  by (subst trimRightSpace.simps) (simp add: spaceWidthEnd_asciiSpace [OF assms])

lemma trimmed_end_not_space:
  assumes "trimmed (s @ [c])"
  shows "\<not> asciiSpace c"
  using assms spaceWidthEnd_asciiSpace [of c s] by (auto simp: trimmed_def)

lemma trimmed_hd_not_space:
  assumes "trimmed (c # s)"
  shows "\<not> asciiSpace c"
  using assms spaceWidth_asciiSpace [of c s] by (auto simp: trimmed_def)

lemma trimmed_plain_append:
  assumes "plainByte c" "\<forall>b \<in> set x. asciiByte b" "trimmed t" "t \<noteq> []"
  shows "trimmed (c # x @ t)"
proof -
  have "\<forall>b \<in> set (c # x). asciiByte b"
    using assms(1,2) by (simp add: plainByte_def)
  from spaceWidthEnd_ascii_append [OF this assms(4)] assms(3)
  have "spaceWidthEnd (c # x @ t) = 0"
    by (simp add: trimmed_def)
  with spaceWidth_plain [OF assms(1)] show ?thesis
    by (simp add: trimmed_def)
qed

lemma trimmed_plain_snoc:
  assumes "plainByte c" "plainByte d"
  shows "trimmed (c # x @ [d])"
  using spaceWidth_plain [OF assms(1), of "x @ [d]"] spaceWidthEnd_plain [OF assms(2), of "c # x"]
  by (simp add: trimmed_def)

lemma trimmed_plain_single:
  assumes "plainByte c"
  shows "trimmed [c]"
  using spaceWidth_plain [OF assms, of "[]"] spaceWidthEnd_plain [OF assms, of "[]"]
  by (simp add: trimmed_def)

lemma plainByte_chars:
  "plainByte CHR ''#''" "plainByte CHR ''-''" "plainByte CHR ''.''" "plainByte CHR ''*''"
  "plainByte CHR 0x60"
  by (simp_all add: plainByte_def asciiByte_def asciiSpace_def)

lemma asciiSpace_blank: "asciiSpace CHR '' ''"
  by (simp add: asciiSpace_def)

lemma reDigit_plain: "reDigit c \<Longrightarrow> plainByte c"
  by (auto simp: reDigit_def plainByte_def asciiByte_def asciiSpace_def)

lemma reSpace_asciiSpace: "reSpace c \<Longrightarrow> asciiSpace c"
  by (auto simp: reSpace_def asciiSpace_def)

lemma plainByte_ascii: "plainByte c \<Longrightarrow> asciiByte c"
  by (simp add: plainByte_def)

section \<open>Lemmas on the cleanup loop\<close>

lemma sint_level:
  fixes k :: "64 word"
  assumes "0 \<le> int n + sint k" "int n + sint k < 2 ^ 63"
  shows "sint (of_nat n + k) = int n + sint k"
proof -
  have "of_nat n + k = (word_of_int (int n + sint k) :: 64 word)"
    by simp
  then have "sint (of_nat n + k :: 64 word) = signed_take_bit 63 (int n + sint k)"
    by (simp only: signed_of_int) simp
  also have "\<dots> = int n + sint k"
    using assms by (simp add: signed_take_bit_int_eq_self)
  finally show ?thesis .
qed

lemma concat_replicate_single: "concat (replicate m [c]) = replicate m c"
  by (induction m) simp_all

lemma Repeat_hash:
  assumes "0 \<le> n" "nat n \<le> maxLen"
  shows "Repeat maxLen ''#'' n = Inr (replicate (nat n) CHR ''#'')"
proof -
  consider "n = 0" | "n = 1" | "1 < n"
    using assms(1) by linarith
  then show ?thesis
  proof cases
    case 1
    then show ?thesis by (simp add: Repeat_def)
  next
    case 2
    then show ?thesis by (simp add: Repeat_def)
  next
    case 3
    with assms(2) show ?thesis
      by (simp add: Repeat_def concat_replicate_single)
  qed
qed

lemma rewriteLine_heading:
  assumes line: "line = replicate L CHR ''#'' @ title"
    and L: "0 < L"
    and title: "CHR ''#'' \<notin> set title"
    and lo: "0 \<le> int L + sint (HeaderLevelAdjust opts)"
    and hi: "int L + sint (HeaderLevelAdjust opts) < 2 ^ 63"
    and fit: "nat (int L + sint (HeaderLevelAdjust opts)) \<le> maxLen"
  shows "rewriteLine maxLen opts line =
           Inr (replicate (nat (int L + sint (HeaderLevelAdjust opts))) CHR ''#'' @ '' '' @
                TrimSpace title)"
proof -
  have pre: "HasPrefix line ''#''"
    using L by (cases L) (simp_all add: line HasPrefix_def)
  have cnt: "Count line CHR ''#'' = L"
    using title by (auto simp: line Count_def filter_empty_conv)
  have trim: "TrimLeft line ''#'' = title"
    using title by (cases title) (auto simp: line TrimLeft_def dropWhile_append3)
  show ?thesis
    by (simp add: rewriteLine_def pre cnt trim sint_level [OF lo hi] Repeat_hash [OF lo fit])
qed

lemma noBlankPair_snoc:
  "noBlankPair (xs @ [l]) \<longleftrightarrow> noBlankPair xs \<and> \<not> (xs \<noteq> [] \<and> last xs = [] \<and> l = [])"
  by (induction xs rule: noBlankPair.induct) auto

lemma cleanupLoop_append:
  "cleanupLoop maxLen opts st (xs @ ys) =
     (case cleanupLoop maxLen opts st xs of Inl p \<Rightarrow> Inl p | Inr st' \<Rightarrow> cleanupLoop maxLen opts st' ys)"
  by (induction xs arbitrary: st) (auto split: sum.splits)

lemma rewriteLine_nonempty:
  assumes "rewriteLine maxLen opts line = Inr out"
    and "line \<noteq> []"
  shows "out \<noteq> []"
  using assms
  by (auto simp: rewriteLine_def Let_def sliceFrom_def split: if_splits sum.splits)

lemma rewriteLine_Nil: "rewriteLine maxLen opts [] = Inr []"
  by (simp add: rewriteLine_def HasPrefix_def numberedMatch_def)

lemma cleanupLine_blank:
  assumes "TrimSpace raw = []"
  shows "cleanupLine maxLen opts (result, c) raw = Inr (appendCollapsing result [], c)"
  using assms
  by (simp add: cleanupLine_def Let_def appendCollapsing_def HasPrefix_def rewriteLine_Nil)

lemma cleanupLine_nonblank:
  assumes "TrimSpace raw \<noteq> []"
    and "cleanupLine maxLen opts (result, c) raw = Inr (result', c')"
  shows "\<exists>out. out \<noteq> [] \<and> result' = result @ [out]"
  using assms
  by (auto simp: cleanupLine_def Let_def split: if_splits sum.splits
      dest: rewriteLine_nonempty)

lemma cleanupLine_fence:
  assumes "HasPrefix (TrimSpace raw) ''```''"
  shows "cleanupLine maxLen opts (result, c) raw = Inr (result @ [TrimSpace raw], \<not> c)"
  using assms by (auto simp: cleanupLine_def Let_def HasPrefix_def)

lemma cleanupLine_in_fence:
  assumes "\<not> HasPrefix (TrimSpace raw) ''```''"
  shows "cleanupLine maxLen opts (result, True) raw =
           Inr (appendCollapsing result (TrimSpace raw), True)"
  using assms by (simp add: cleanupLine_def appendCollapsing_def Let_def)

lemma cleanupLoop_in_fence:
  assumes "\<forall>raw \<in> set body. \<not> HasPrefix (TrimSpace raw) ''```''"
  shows "cleanupLoop maxLen opts (result, True) body =
           Inr (foldl appendCollapsing result (map TrimSpace body), True)"
  using assms
  by (induction body arbitrary: result) (simp_all add: cleanupLine_in_fence)

text \<open>
  Each iteration of the loop keeps \<^const>\<open>noBlankPair\<close> of \<open>result\<close>, and so does the
  whole loop.
\<close>

lemma cleanupLine_noBlankPair:
  assumes "noBlankPair result"
    and "cleanupLine maxLen opts (result, c) raw = Inr (result', c')"
  shows "noBlankPair result'"
proof (cases "TrimSpace raw = []")
  case True
  with assms show ?thesis
    by (auto simp: cleanupLine_blank appendCollapsing_def noBlankPair_snoc)
next
  case False
  from cleanupLine_nonblank [OF False assms(2)] assms(1) show ?thesis
    by (auto simp: noBlankPair_snoc)
qed

lemma cleanupLoop_noBlankPair:
  assumes "cleanupLoop maxLen opts (result, c) lines = Inr (result', c')"
    and "noBlankPair result"
  shows "noBlankPair result'"
  using assms
proof (induction lines arbitrary: result c)
  case Nil
  then show ?case by simp
next
  case (Cons raw lines)
  then show ?case
    by (auto split: sum.splits dest: cleanupLine_noBlankPair)
qed

lemma cleanupLoop_extends:
  assumes "cleanupLoop maxLen opts (result, c) lines = Inr (result', c')"
  shows "\<exists>new. result' = result @ new \<and>
           (lines = [] \<longrightarrow> new = []) \<and>
           (lines \<noteq> [] \<and> TrimSpace (hd lines) \<noteq> [] \<longrightarrow> new \<noteq> [] \<and> hd new \<noteq> [])"
  using assms
proof (induction lines arbitrary: result c)
  case Nil
  then show ?case by simp
next
  case (Cons raw lines)
  from Cons.prems obtain r1 c1 where
    step: "cleanupLine maxLen opts (result, c) raw = Inr (r1, c1)" and
    rest: "cleanupLoop maxLen opts (r1, c1) lines = Inr (result', c')"
    by (auto split: sum.splits)
  from Cons.IH [OF rest] obtain new where new: "result' = r1 @ new"
    by blast
  show ?case
  proof (cases "TrimSpace raw = []")
    case True
    with step have "r1 = appendCollapsing result []"
      by (simp add: cleanupLine_blank)
    then show ?thesis
      using new True by (auto simp: appendCollapsing_def)
  next
    case False
    from cleanupLine_nonblank [OF False step] obtain out where "out \<noteq> []" "r1 = result @ [out]"
      by blast
    then show ?thesis
      using new by auto
  qed
qed

lemma cleanupLoop_blanks:
  assumes "\<forall>b \<in> set blanks. TrimSpace b = []"
    and "blanks \<noteq> []"
  shows "cleanupLoop maxLen opts (result, c) blanks = Inr (appendCollapsing result [], c)"
  using assms
proof (induction blanks arbitrary: result)
  case Nil
  then show ?case by simp
next
  case (Cons b blanks)
  have step: "cleanupLine maxLen opts (result, c) b = Inr (appendCollapsing result [], c)"
    using Cons.prems by (simp add: cleanupLine_blank)
  show ?case
  proof (cases "blanks = []")
    case True
    then show ?thesis using step by simp
  next
    case False
    have "appendCollapsing (appendCollapsing result []) [] = appendCollapsing result []"
      by (simp add: appendCollapsing_def)
    then show ?thesis
      using step Cons.IH [OF _ False] Cons.prems by simp
  qed
qed

lemma cleanupLoop_last_nonblank:
  assumes "cleanupLoop maxLen opts (result, c) pre = Inr (result', c')"
    and "pre \<noteq> []"
    and "TrimSpace (last pre) \<noteq> []"
  shows "result' \<noteq> [] \<and> last result' \<noteq> []"
proof -
  from assms(2) have pre: "pre = butlast pre @ [last pre]"
    by simp
  from assms(1) obtain r1 c1 where
    "cleanupLine maxLen opts (r1, c1) (last pre) = Inr (result', c')"
    by (subst (asm) pre, subst (asm) cleanupLoop_append) (auto split: sum.splits)
  from cleanupLine_nonblank [OF assms(3) this] show ?thesis
    by auto
qed

subsection \<open>A second cleanup of an emitted line\<close>

lemma hashes_split:
  "t = replicate (length (takeWhile (\<lambda>c. c = CHR ''#'') t)) CHR ''#'' @
       dropWhile (\<lambda>c. c = CHR ''#'') t"
proof -
  have "replicate (length (takeWhile (\<lambda>c. c = CHR ''#'') t)) CHR ''#'' =
          takeWhile (\<lambda>c. c = CHR ''#'') t"
    by (rule replicate_length_same) (auto dest: set_takeWhileD)
  then show ?thesis
    by simp
qed

lemma nat_bound_int:
  assumes "n \<le> m" "m < 2 ^ 63"
  shows "int n < 2 ^ 63"
proof -
  from assms have "n < 2 ^ 63"
    by (rule le_less_trans)
  then have "int n < int (2 ^ 63)"
    by (simp only: of_nat_less_iff)
  then show ?thesis
    by simp
qed

lemma rewriteLine_heading0:
  assumes "0 < L" "CHR ''#'' \<notin> set title" "HeaderLevelAdjust opts = 0" "int L < 2 ^ 63"
    "L \<le> maxLen"
  shows "rewriteLine maxLen opts (replicate L CHR ''#'' @ title) =
           Inr (replicate L CHR ''#'' @ '' '' @ TrimSpace title)"
proof -
  have lo: "0 \<le> int L + sint (HeaderLevelAdjust opts)"
    by (simp add: assms(3))
  have hi: "int L + sint (HeaderLevelAdjust opts) < 2 ^ 63"
    using assms(4) by (simp add: assms(3))
  have level: "nat (int L + sint (HeaderLevelAdjust opts)) = L"
    by (simp add: assms(3))
  then have fit: "nat (int L + sint (HeaderLevelAdjust opts)) \<le> maxLen"
    using assms(5) by simp
  from rewriteLine_heading [OF refl assms(1,2) lo hi fit] level show ?thesis
    by simp
qed

lemma TrimSpace_hashes_blank:
  assumes "0 < L"
  shows "TrimSpace (replicate L CHR ''#'' @ '' '') = replicate L CHR ''#''"
proof -
  from assms obtain n where n: "L = Suc n"
    by (cases L) auto
  have front: "replicate L CHR ''#'' = CHR ''#'' # replicate n CHR ''#''"
    by (simp add: n)
  have rear: "replicate L CHR ''#'' = replicate n CHR ''#'' @ [CHR ''#'']"
    by (simp add: n replicate_append_same)
  have "spaceWidth (replicate L CHR ''#'' @ '' '') = 0"
    unfolding front by (simp add: spaceWidth_plain plainByte_chars)
  then have "trimLeftSpace (replicate L CHR ''#'' @ '' '') = replicate L CHR ''#'' @ '' ''"
    by (rule trimLeftSpace_id)
  moreover have "trimRightSpace (replicate L CHR ''#'' @ '' '') =
      trimRightSpace (replicate L CHR ''#'')"
    using trimRightSpace_space_snoc [OF asciiSpace_blank] by simp
  moreover have "spaceWidthEnd (replicate L CHR ''#'') = 0"
    unfolding rear by (rule spaceWidthEnd_plain) (rule plainByte_chars)
  then have "trimRightSpace (replicate L CHR ''#'') = replicate L CHR ''#''"
    by (rule trimRightSpace_id)
  ultimately show ?thesis
    by (simp add: TrimSpace_def)
qed

lemma trimmed_hashes_title:
  assumes "0 < L" "trimmed title" "title \<noteq> []"
  shows "trimmed (replicate L CHR ''#'' @ '' '' @ title)"
proof -
  from assms obtain n where n: "L = Suc n"
    by (cases L) auto
  have ascii: "\<forall>b \<in> set (replicate n CHR ''#'' @ '' ''). asciiByte b"
    using plainByte_ascii [OF plainByte_chars(1)] asciiSpace_ascii [OF asciiSpace_blank]
    by auto
  have "trimmed (CHR ''#'' # (replicate n CHR ''#'' @ '' '') @ title)"
    by (rule trimmed_plain_append [OF plainByte_chars(1) ascii assms(2,3)])
  then show ?thesis
    by (simp add: n)
qed

lemma hashes_no_fence: "0 < L \<Longrightarrow> \<not> HasPrefix (replicate L CHR ''#'' @ s) ''```''"
  by (cases L) (simp_all add: HasPrefix_def)

lemma heading_fixed:
  assumes L: "0 < L" "int L < 2 ^ 63" "L \<le> maxLen"
    and title: "CHR ''#'' \<notin> set title" "trimmed title"
    and k: "HeaderLevelAdjust opts = 0"
  shows "fixedLine maxLen opts (replicate L CHR ''#'' @ '' '' @ title)"
proof (cases "title = []")
  case True
  have "rewriteLine maxLen opts (replicate L CHR ''#'' @ []) = Inr (replicate L CHR ''#'' @ '' '' @ [])"
    using rewriteLine_heading0 [OF L(1) _ k L(2,3), of "[]"] by (simp add: TrimSpace_Nil)
  then show ?thesis
    using TrimSpace_hashes_blank [OF L(1)] hashes_no_fence [OF L(1), of "[]"] L(1)
    by (simp add: fixedLine_def True)
next
  case False
  have trim: "TrimSpace (replicate L CHR ''#'' @ CHR '' '' # title) =
      replicate L CHR ''#'' @ CHR '' '' # title"
    using TrimSpace_trimmed [OF trimmed_hashes_title [OF L(1) title(2) False]] by simp
  have "CHR ''#'' \<notin> set ('' '' @ title)"
    using title(1) by simp
  from rewriteLine_heading0 [OF L(1) this k L(2,3)]
  have "rewriteLine maxLen opts (replicate L CHR ''#'' @ '' '' @ title) =
      Inr (replicate L CHR ''#'' @ '' '' @ TrimSpace ('' '' @ title))" .
  moreover have "TrimSpace ('' '' @ title) = title"
    using TrimSpace_space_Cons [OF asciiSpace_blank, of title] TrimSpace_trimmed [OF title(2)]
    by simp
  ultimately show ?thesis
    using hashes_no_fence [OF L(1)] L(1)
    by (simp add: fixedLine_def trim)
qed

lemma heading_again:
  assumes t: "HasPrefix t ''#''"
    and k: "HeaderLevelAdjust opts = 0"
    and inner: "CHR ''#'' \<notin> set (TrimLeft t ''#'')"
    and len: "length t < 2 ^ 63"
    and fit: "length t \<le> maxLen"
  shows "\<exists>out. rewriteLine maxLen opts t = Inr out \<and> fixedLine maxLen opts out \<and>
           set out \<subseteq> set t \<union> set ''# ''"
proof -
  define L where "L = length (takeWhile (\<lambda>c. c = CHR ''#'') t)"
  define title' where "title' = dropWhile (\<lambda>c. c = CHR ''#'') t"
  have line: "t = replicate L CHR ''#'' @ title'"
    unfolding L_def title'_def by (rule hashes_split)
  have L: "0 < L"
    using t by (cases t) (auto simp: L_def HasPrefix_def)
  have inner': "CHR ''#'' \<notin> set title'"
    using inner by (simp add: TrimLeft_def title'_def)
  have short: "L \<le> length t"
    by (simp add: L_def length_takeWhile_le)
  have bound: "int L < 2 ^ 63"
    by (rule nat_bound_int [OF short len])
  have room: "L \<le> maxLen"
    using short fit by (rule le_trans)
  have sub: "set (TrimSpace title') \<subseteq> set title'"
    by (rule set_TrimSpace)
  have out: "rewriteLine maxLen opts t = Inr (replicate L CHR ''#'' @ '' '' @ TrimSpace title')"
    by (subst line) (rule rewriteLine_heading0 [OF L inner' k bound room])
  have "fixedLine maxLen opts (replicate L CHR ''#'' @ '' '' @ TrimSpace title')"
    using inner' sub by (intro heading_fixed L bound room k trimmed_TrimSpace) auto
  moreover have "set (replicate L CHR ''#'' @ '' '' @ TrimSpace title') \<subseteq> set t \<union> set ''# ''"
  proof -
    have "set title' \<subseteq> set t"
      by (auto simp: title'_def dest: set_dropWhileD)
    with sub show ?thesis
      by auto
  qed
  ultimately show ?thesis
    using out by blast
qed

lemma rewriteLine_bullet:
  assumes "m = CHR ''*'' \<or> m = CHR ''-''"
  shows "rewriteLine maxLen opts (m # CHR '' '' # rest) = Inr (''- '' @ TrimSpace rest)"
  using assms by (auto simp: rewriteLine_def HasPrefix_def sliceFrom_def)

lemma bullet_again:
  assumes t: "trimmed t"
    and bullet: "HasPrefix t ''* '' \<or> HasPrefix t ''- ''"
  shows "\<exists>out. rewriteLine maxLen opts t = Inr out \<and> fixedLine maxLen opts out \<and>
           set out \<subseteq> set t \<union> set ''- ''"
proof -
  from bullet obtain m rest where
    line: "t = m # CHR '' '' # rest" and m: "m = CHR ''*'' \<or> m = CHR ''-''"
    by (auto simp: HasPrefix_def prefix_def)
  have rest: "rest \<noteq> []"
  proof
    assume "rest = []"
    with t line have "trimmed ([m] @ [CHR '' ''])"
      by simp
    from trimmed_end_not_space [OF this] show False
      by (simp add: asciiSpace_blank)
  qed
  define u where "u = TrimSpace rest"
  have u: "u \<noteq> []" "trimmed u"
    using TrimSpace_rest_nonempty [of "[m, CHR '' '']" rest] t rest
    by (simp_all add: u_def line trimmed_TrimSpace)
  have out: "rewriteLine maxLen opts t = Inr (''- '' @ u)"
    unfolding line u_def by (rule rewriteLine_bullet [OF m])
  have "trimmed (CHR ''-'' # '' '' @ u)"
    using asciiSpace_ascii [OF asciiSpace_blank]
    by (intro trimmed_plain_append plainByte_chars u) simp
  then have trim: "TrimSpace (CHR ''-'' # CHR '' '' # u) = CHR ''-'' # CHR '' '' # u"
    using TrimSpace_trimmed by simp
  have again: "rewriteLine maxLen opts (CHR ''-'' # CHR '' '' # u) = Inr (''- '' @ TrimSpace u)"
    by (rule rewriteLine_bullet) simp
  have "fixedLine maxLen opts (''- '' @ u)"
    using again TrimSpace_trimmed [OF u(2)]
    by (simp add: fixedLine_def trim HasPrefix_def)
  moreover have "set (''- '' @ u) \<subseteq> set t \<union> set ''- ''"
    using set_TrimSpace [of rest] by (auto simp: u_def line)
  ultimately show ?thesis
    using out by blast
qed

lemma reDigit_chars:
  "\<not> reDigit CHR ''.''" "\<not> reDigit CHR ''#''" "\<not> reDigit CHR ''*''" "\<not> reDigit CHR ''-''"
  "\<not> reDigit CHR 0x60"
  by (simp_all add: reDigit_def)

lemma digits_then:
  assumes "\<forall>d \<in> set ds. reDigit d" "\<not> reDigit c"
  shows "takeWhile reDigit (ds @ c # r) = ds" "dropWhile reDigit (ds @ c # r) = c # r"
  using assms by simp_all

lemma digits_dot:
  assumes "\<forall>d \<in> set ds. reDigit d"
  shows "takeWhile (\<lambda>c. c \<noteq> CHR ''.'') (ds @ CHR ''.'' # r) = ds"
    "dropWhile (\<lambda>c. c \<noteq> CHR ''.'') (ds @ CHR ''.'' # r) = CHR ''.'' # r"
proof -
  have "\<forall>d \<in> set ds. d \<noteq> CHR ''.''"
    using assms reDigit_chars(1) by auto
  then show "takeWhile (\<lambda>c. c \<noteq> CHR ''.'') (ds @ CHR ''.'' # r) = ds"
    "dropWhile (\<lambda>c. c \<noteq> CHR ''.'') (ds @ CHR ''.'' # r) = CHR ''.'' # r"
    by simp_all
qed

lemma digits_no_prefix:
  assumes "reDigit d"
  shows "\<not> HasPrefix (d # s) ''#''" "\<not> HasPrefix (d # s) ''* ''" "\<not> HasPrefix (d # s) ''- ''"
    "\<not> HasPrefix (d # s) ''```''"
  using assms reDigit_chars by (auto simp: HasPrefix_def)

lemma rewriteLine_numbered:
  assumes ds: "ds \<noteq> []" "\<forall>d \<in> set ds. reDigit d"
    and w: "reSpace w"
  shows "rewriteLine maxLen opts (ds @ CHR ''.'' # w # r) = Inr (ds @ ''.'' @ TrimSpace (w # r))"
proof -
  obtain d ds' where d: "ds = d # ds'" "reDigit d"
    using ds by (cases ds) auto
  have "numberedMatch (ds @ CHR ''.'' # w # r)"
    using ds w by (simp add: numberedMatch_def digits_then reDigit_chars)
  moreover have "SplitN2 (ds @ CHR ''.'' # w # r) CHR ''.'' = [ds, w # r]"
    by (simp add: SplitN2_def digits_dot [OF ds(2)])
  ultimately show ?thesis
    using digits_no_prefix [OF d(2), of "ds' @ CHR ''.'' # w # r"]
    by (simp add: rewriteLine_def d(1))
qed

lemma rewriteLine_number_glued:
  assumes ds: "ds \<noteq> []" "\<forall>d \<in> set ds. reDigit d"
    and u: "u = [] \<or> \<not> reSpace (hd u)"
  shows "rewriteLine maxLen opts (ds @ CHR ''.'' # u) = Inr (ds @ CHR ''.'' # u)"
proof -
  obtain d ds' where d: "ds = d # ds'" "reDigit d"
    using ds by (cases ds) auto
  have "\<not> numberedMatch (ds @ CHR ''.'' # u)"
    using ds u by (cases u) (simp_all add: numberedMatch_def digits_then reDigit_chars)
  then show ?thesis
    using digits_no_prefix [OF d(2), of "ds' @ CHR ''.'' # u"]
    by (simp add: rewriteLine_def d(1))
qed

lemma numbered_again:
  assumes t: "trimmed t"
    and no_hash: "\<not> HasPrefix t ''#''"
    and no_bullet: "\<not> (HasPrefix t ''* '' \<or> HasPrefix t ''- '')"
    and num: "numberedMatch t"
  shows "\<exists>out. rewriteLine maxLen opts t = Inr out \<and> fixedLine maxLen opts out \<and>
           set out \<subseteq> set t \<union> set ''.''"
proof -
  define ds where "ds = takeWhile reDigit t"
  from num obtain w r where
    rest: "dropWhile reDigit t = CHR ''.'' # w # r" and w: "reSpace w" and ne: "ds \<noteq> []"
    by (auto simp: numberedMatch_def ds_def split: list.splits)
  have line: "t = ds @ CHR ''.'' # w # r"
    using rest by (metis ds_def takeWhile_dropWhile_id)
  have ds: "\<forall>d \<in> set ds. reDigit d"
    by (auto simp: ds_def dest: set_takeWhileD)
  obtain d ds' where d: "ds = d # ds'" "reDigit d"
    using ne ds by (cases ds) auto
  define u where "u = TrimSpace (w # r)"
  have tu: "trimmed u"
    by (simp add: u_def trimmed_TrimSpace)
  have out: "rewriteLine maxLen opts t = Inr (ds @ CHR ''.'' # u)"
    unfolding line u_def using rewriteLine_numbered [OF ne ds w] by simp
  have hd_u: "u = [] \<or> \<not> reSpace (hd u)"
    using tu trimmed_hd_not_space reSpace_asciiSpace by (cases u) auto
  have ascii: "\<forall>b \<in> set (ds' @ ''.''). asciiByte b"
    using ds d(1) plainByte_ascii [OF plainByte_chars(3)]
    by (auto dest: reDigit_plain plainByte_ascii)
  have "trimmed (ds @ CHR ''.'' # u)"
  proof (cases "u = []")
    case True
    then show ?thesis
      using trimmed_plain_snoc [OF reDigit_plain [OF d(2)] plainByte_chars(3), of ds']
      by (simp add: d(1))
  next
    case False
    from trimmed_plain_append [OF reDigit_plain [OF d(2)] ascii tu False] show ?thesis
      by (simp add: d(1))
  qed
  then have trim: "TrimSpace (d # ds' @ CHR ''.'' # u) = d # ds' @ CHR ''.'' # u"
    using TrimSpace_trimmed by (simp add: d(1))
  have "fixedLine maxLen opts (ds @ CHR ''.'' # u)"
    using rewriteLine_number_glued [OF ne ds hd_u]
      digits_no_prefix(4) [OF d(2), of "ds' @ CHR ''.'' # u"]
    by (simp add: fixedLine_def trim d(1))
  moreover have "set (ds @ CHR ''.'' # u) \<subseteq> set t \<union> set ''.''"
    using set_TrimSpace [of "w # r"] by (auto simp: u_def line)
  ultimately show ?thesis
    using out by blast
qed

lemma plain_again:
  assumes t: "trimmed t" "t \<noteq> []" "\<not> HasPrefix t ''```''"
    and no_hash: "\<not> HasPrefix t ''#''"
    and no_bullet: "\<not> (HasPrefix t ''* '' \<or> HasPrefix t ''- '')"
    and num: "\<not> numberedMatch t"
  shows "rewriteLine maxLen opts t = Inr t \<and> fixedLine maxLen opts t"
proof -
  have "rewriteLine maxLen opts t = Inr t"
    using no_hash no_bullet num by (simp add: rewriteLine_def)
  then show ?thesis
    using t by (simp add: fixedLine_def TrimSpace_trimmed)
qed

lemma rewriteLine_again:
  assumes t: "trimmed t" "t \<noteq> []" "\<not> HasPrefix t ''```''"
    and heading: "HasPrefix t ''#'' \<longrightarrow>
        HeaderLevelAdjust opts = 0 \<and> CHR ''#'' \<notin> set (TrimLeft t ''#'')"
    and len: "length t < 2 ^ 63"
    and fit: "length t \<le> maxLen"
  shows "\<exists>out. rewriteLine maxLen opts t = Inr out \<and> fixedLine maxLen opts out \<and>
           set out \<subseteq> set t \<union> set ''# -.''"
proof -
  consider (heading) "HasPrefix t ''#''"
    | (bullet) "\<not> HasPrefix t ''#''" "HasPrefix t ''* '' \<or> HasPrefix t ''- ''"
    | (numbered) "\<not> HasPrefix t ''#''" "\<not> (HasPrefix t ''* '' \<or> HasPrefix t ''- '')"
        "numberedMatch t"
    | (plain) "\<not> HasPrefix t ''#''" "\<not> (HasPrefix t ''* '' \<or> HasPrefix t ''- '')"
        "\<not> numberedMatch t"
    by blast
  then show ?thesis
  proof cases
    case heading
    with assms(4) have "HeaderLevelAdjust opts = 0" "CHR ''#'' \<notin> set (TrimLeft t ''#'')"
      by simp_all
    from heading_again [OF heading this len fit] show ?thesis
      by fastforce
  next
    case bullet
    from bullet_again [OF t(1) bullet(2)] show ?thesis
      by fastforce
  next
    case numbered
    from numbered_again [OF t(1) numbered] show ?thesis
      by fastforce
  next
    case plain
    from plain_again [OF t plain] show ?thesis
      by fastforce
  qed
qed

lemma cleanupLine_again:
  assumes heading: "headingsPlain opts raw"
    and len: "length raw < 2 ^ 63"
    and fit: "length raw \<le> maxLen"
  shows "\<exists>r' c'. cleanupLine maxLen opts (r, c) raw = Inr (r', c') \<and>
           (r' = r \<and> c' = c \<and> r \<noteq> [] \<or>
            (\<exists>out. r' = r @ [out] \<and> cleanupLine maxLen opts (r, c) out = Inr (r', c') \<and>
                   set out \<subseteq> set raw \<union> set ''# -.''))"
proof -
  define t where "t = TrimSpace raw"
  have tt: "trimmed t" "TrimSpace t = t"
    by (simp_all add: t_def trimmed_TrimSpace TrimSpace_idem)
  have sub: "set t \<subseteq> set raw"
    by (simp add: t_def set_TrimSpace)
  have tlen: "length t < 2 ^ 63"
    using length_TrimSpace [of raw] len by (simp add: t_def)
  have tfit: "length t \<le> maxLen"
    using length_TrimSpace [of raw] fit by (simp add: t_def)
  consider (drop) "t = []" "r \<noteq> []" "last r = []"
    | (blank) "t = []" "\<not> (r \<noteq> [] \<and> last r = [])"
    | (fence) "t \<noteq> []" "HasPrefix t ''```''"
    | (code) "t \<noteq> []" "\<not> HasPrefix t ''```''" "c"
    | (rewrite) "t \<noteq> []" "\<not> HasPrefix t ''```''" "\<not> c"
    by blast
  then show ?thesis
  proof cases
    case drop
    then have "cleanupLine maxLen opts (r, c) raw = Inr (r, c)"
      by (simp add: cleanupLine_def Let_def flip: t_def)
    with drop show ?thesis
      by simp
  next
    case blank
    have "cleanupLine maxLen opts (r, c) s = Inr (r @ [[]], c)" if "TrimSpace s = []" for s
      using that blank(2)
      by (auto simp: cleanupLine_def Let_def HasPrefix_def rewriteLine_Nil)
    from this [of raw] this [of "[]"] blank(1) show ?thesis
      by (simp add: t_def TrimSpace_Nil)
  next
    case fence
    have "cleanupLine maxLen opts (r, c) s = Inr (r @ [t], \<not> c)" if "TrimSpace s = t" for s
      using that fence by (simp add: cleanupLine_def Let_def)
    from this [of raw] this [of t] tt(2) sub show ?thesis
      by (auto simp: t_def)
  next
    case code
    have "cleanupLine maxLen opts (r, c) s = Inr (r @ [t], c)" if "TrimSpace s = t" for s
      using that code by (simp add: cleanupLine_def Let_def)
    from this [of raw] this [of t] tt(2) sub show ?thesis
      by (auto simp: t_def)
  next
    case rewrite
    from heading have "HasPrefix t ''#'' \<longrightarrow>
        HeaderLevelAdjust opts = 0 \<and> CHR ''#'' \<notin> set (TrimLeft t ''#'')"
      by (simp add: headingsPlain_def t_def)
    from rewriteLine_again [OF tt(1) rewrite(1,2) this tlen tfit] obtain out where
      out: "rewriteLine maxLen opts t = Inr out" "fixedLine maxLen opts out"
        "set out \<subseteq> set t \<union> set ''# -.''"
      by blast
    have first: "cleanupLine maxLen opts (r, c) raw = Inr (r @ [out], c)"
      using rewrite out(1) by (simp add: cleanupLine_def Let_def flip: t_def)
    have again: "cleanupLine maxLen opts (r, c) out = Inr (r @ [out], c)"
      using rewrite(3) out(2) by (simp add: cleanupLine_def Let_def fixedLine_def)
    from out(3) sub have "set out \<subseteq> set raw \<union> set ''# -.''"
      by blast
    with first again show ?thesis
      by blast
  qed
qed

lemma cleanupLoop_again:
  assumes lines: "\<forall>raw \<in> set lines.
        headingsPlain opts raw \<and> length raw < 2 ^ 63 \<and> length raw \<le> maxLen \<and>
        CHR 0x0A \<notin> set raw"
    and fixed: "cleanupLoop maxLen opts ([], False) r = Inr (r, c)"
    and no_nl: "\<forall>l \<in> set r. CHR 0x0A \<notin> set l"
  shows "\<exists>r' c'. cleanupLoop maxLen opts (r, c) lines = Inr (r', c') \<and>
           cleanupLoop maxLen opts ([], False) r' = Inr (r', c') \<and>
           (\<forall>l \<in> set r'. CHR 0x0A \<notin> set l) \<and>
           (r \<noteq> [] \<or> lines \<noteq> [] \<longrightarrow> r' \<noteq> [])"
  using assms
proof (induction lines arbitrary: r c)
  case Nil
  then show ?case by simp
next
  case (Cons raw lines)
  from Cons.prems(1) have raw: "headingsPlain opts raw" "length raw < 2 ^ 63"
    "length raw \<le> maxLen" "CHR 0x0A \<notin> set raw"
    and rest: "\<forall>raw \<in> set lines.
        headingsPlain opts raw \<and> length raw < 2 ^ 63 \<and> length raw \<le> maxLen \<and>
        CHR 0x0A \<notin> set raw"
    by simp_all
  from cleanupLine_again [OF raw(1,2,3), of r c] obtain r1 c1 where
    step: "cleanupLine maxLen opts (r, c) raw = Inr (r1, c1)" and
    shape: "r1 = r \<and> c1 = c \<and> r \<noteq> [] \<or>
            (\<exists>out. r1 = r @ [out] \<and> cleanupLine maxLen opts (r, c) out = Inr (r1, c1) \<and>
                   set out \<subseteq> set raw \<union> set ''# -.'')"
    by blast
  have fixed1: "cleanupLoop maxLen opts ([], False) r1 = Inr (r1, c1)"
    and no_nl1: "\<forall>l \<in> set r1. CHR 0x0A \<notin> set l"
    and ne1: "r1 \<noteq> []"
  proof -
    from shape consider "r1 = r" "c1 = c" "r \<noteq> []"
      | out where "r1 = r @ [out]" "cleanupLine maxLen opts (r, c) out = Inr (r1, c1)"
          "set out \<subseteq> set raw \<union> set ''# -.''"
      by blast
    then have "cleanupLoop maxLen opts ([], False) r1 = Inr (r1, c1) \<and>
        (\<forall>l \<in> set r1. CHR 0x0A \<notin> set l) \<and> r1 \<noteq> []"
    proof cases
      case 1
      with Cons.prems(2,3) show ?thesis
        by simp
    next
      case 2
      have "CHR 0x0A \<notin> set out"
        using 2(3) raw(4) by auto
      with 2(1,2) Cons.prems(2,3) show ?thesis
        by (simp add: cleanupLoop_append)
    qed
    then show "cleanupLoop maxLen opts ([], False) r1 = Inr (r1, c1)"
      "\<forall>l \<in> set r1. CHR 0x0A \<notin> set l" "r1 \<noteq> []"
      by simp_all
  qed
  from Cons.IH [OF rest fixed1 no_nl1] ne1 step show ?case
    by auto
qed

section \<open>Lemmas on the walk\<close>


lemma walk_bold_fonts:
  "filter isBoldFont (snd (walk opts n st)) =
     filter isBoldFont (snd st) @
     map (\<lambda>l. SetFont (MainFont opts) ''B'' (16 - real_of_int l)) (headingLevels n)"
  "filter isBoldFont (snd (walkChildren opts cs st)) =
     filter isBoldFont (snd st) @
     map (\<lambda>l. SetFont (MainFont opts) ''B'' (16 - real_of_int l)) (headingLevelsList cs)"
proof (induction opts n st and opts cs st rule: walk_walkChildren.induct)
qed (auto split: prod.splits)









section \<open>The claims\<close>

subsection \<open>C1: heading levels under the adjustment\<close>

text \<open>
  Claim C1, as the code has it. Outside a code block, a line whose trimmed form is
  \<open>L \<ge> 1\<close> characters \<open>#\<close> followed by a title without \<open>#\<close> is emitted as \<open>L + k\<close>
  characters \<open>#\<close>, one space and the trimmed title, where \<open>k\<close> is \<open>HeaderLevelAdjust\<close>:
  the emitted level is \<open>L + k\<close>, with no clamp to the range 1..6. This holds whenever
  \<open>L + k\<close> is not negative and the emitted line is no longer than can be allocated,
  which on a 64-bit platform is at most \<open>2^48\<close> bytes; a longer run of \<open>#\<close> makes
  \<open>strings.Repeat\<close> panic. For a text that is this one line, the emitted line is what
  \<open>cleanupMarkdownText\<close> returns.
\<close>

theorem heading_level_shift:
  assumes "TrimSpace raw = replicate L CHR ''#'' @ title"
    and "0 < L"
    and "CHR ''#'' \<notin> set title"
    and "0 \<le> int L + sint (HeaderLevelAdjust opts)"
    and "nat (int L + sint (HeaderLevelAdjust opts)) + 1 + length (TrimSpace title) \<le> maxLen"
    and "maxLen \<le> 2 ^ 48"
  shows "\<exists>out. cleanupLine maxLen opts (result, False) raw = Inr (result @ [out], False) \<and>
           (CHR 0x0A \<notin> set raw \<longrightarrow> cleanupMarkdownText maxLen opts raw = Inr out) \<and>
           out = replicate (nat (int L + sint (HeaderLevelAdjust opts))) CHR ''#'' @ '' '' @
                 TrimSpace title \<and>
           leadingHashes out = nat (int L + sint (HeaderLevelAdjust opts))"
proof -
  define out where
    "out = replicate (nat (int L + sint (HeaderLevelAdjust opts))) CHR ''#'' @ '' '' @
           TrimSpace title"
  have fit: "nat (int L + sint (HeaderLevelAdjust opts)) \<le> maxLen"
    using assms(5) by simp
  have "nat (int L + sint (HeaderLevelAdjust opts)) \<le> 2 ^ 48"
    using fit assms(6) by (rule le_trans)
  then have "int L + sint (HeaderLevelAdjust opts) \<le> 2 ^ 48"
    by simp
  also have "(2::int) ^ 48 < 2 ^ 63"
    by simp
  finally have hi: "int L + sint (HeaderLevelAdjust opts) < 2 ^ 63" .
  have ne: "TrimSpace raw \<noteq> []"
    using assms(1,2) by auto
  have nofence: "\<not> HasPrefix (TrimSpace raw) ''```''"
    using assms(1,2) by (cases L) (simp_all add: HasPrefix_def)
  have step: "cleanupLine maxLen opts (r, False) raw = Inr (r @ [out], False)" for r
    using ne nofence rewriteLine_heading [OF assms(1-4) hi fit]
    by (simp add: cleanupLine_def out_def)
  have whole: "cleanupMarkdownText maxLen opts raw = Inr out" if "CHR 0x0A \<notin> set raw"
    using step [of "[]"] that by (simp add: cleanupMarkdownText_def Split_no_sep)
  have "leadingHashes out = nat (int L + sint (HeaderLevelAdjust opts))"
    by (simp add: out_def leadingHashes_def takeWhile_append)
  with step whole show ?thesis
    unfolding out_def by blast
qed

theorem heading_level_shift_witness:
  "TrimSpace ''  ## Notes '' = replicate 2 CHR ''#'' @ '' Notes'' \<and>
   cleanupLine 4096 DefaultMarkdownOptions ([''intro''], False) ''  ## Notes '' =
     Inr ([''intro'', ''### Notes''], False) \<and>
   cleanupMarkdownText 4096 DefaultMarkdownOptions ''  ## Notes '' = Inr ''### Notes'' \<and>
   leadingHashes ''### Notes'' = 3"
proof -
  have h1: "TrimSpace ''  ## Notes '' = replicate 2 CHR ''#'' @ '' Notes''"
    by code_simp
  have h2: "(0::nat) < 2"
    by simp
  have h3: "CHR ''#'' \<notin> set '' Notes''"
    by simp
  have h4: "0 \<le> int 2 + sint (HeaderLevelAdjust DefaultMarkdownOptions)"
    by (simp add: DefaultMarkdownOptions_def)
  have t: "TrimSpace '' Notes'' = ''Notes''"
    by code_simp
  have h5: "nat (int 2 + sint (HeaderLevelAdjust DefaultMarkdownOptions)) + 1 +
      length (TrimSpace '' Notes'') \<le> 4096"
    by (simp add: t DefaultMarkdownOptions_def)
  have h6: "(4096::nat) \<le> 2 ^ 48"
    by simp
  have l: "leadingHashes ''### Notes'' = 3"
    by code_simp
  show ?thesis
    using heading_level_shift [OF h1 h2 h3 h4 h5 h6, of "[''intro'']"] h1 l
    by (simp add: t DefaultMarkdownOptions_def numeral_eq_Suc)
qed

text \<open>
  The claim as stated fails: with an adjustment of 6 a heading of level 1 is emitted
  with seven \<open>#\<close>, not with the six that a clamp would give.
\<close>

theorem heading_clamp_counterexample:
  "cleanupMarkdownText 4096 (DefaultMarkdownOptions\<lparr>HeaderLevelAdjust := 6\<rparr>) ''# Title'' =
     Inr ''####### Title'' \<and>
   leadingHashes ''####### Title'' = 7"
  by code_simp

subsection \<open>C2: lines between two fence markers\<close>

text \<open>
  Claim C2, as the code has it. Take a fence-marker line outside a code block, then lines
  none of which is a fence marker, then a fence-marker line. Every line is trimmed of
  leading and trailing white space first; the lines between the markers are then
  emitted without any heading, bullet or number rewriting, whatever they look like and
  whatever the options are, except that an empty line directly after an emitted empty
  line is dropped.
\<close>

theorem fenced_lines_trimmed_only:
  assumes "HasPrefix (TrimSpace opening) ''```''"
    and "HasPrefix (TrimSpace closing) ''```''"
    and "\<forall>raw \<in> set body. \<not> HasPrefix (TrimSpace raw) ''```''"
  shows "cleanupLoop maxLen opts (result, False) (opening # body @ [closing]) =
           Inr (foldl appendCollapsing (result @ [TrimSpace opening]) (map TrimSpace body) @
                [TrimSpace closing], False)"
  using assms
  by (simp add: cleanupLine_fence cleanupLoop_append cleanupLoop_in_fence)

theorem fenced_lines_trimmed_only_witness:
  "cleanupLoop 4096 DefaultMarkdownOptions ([], False)
     (''```go'' # [''  # not a heading'', '''', ''  '', ''* x  ''] @ [''```'']) =
     Inr ([''```go'', ''# not a heading'', '''', ''* x'', ''```''], False)"
proof -
  have h1: "HasPrefix (TrimSpace ''```go'') ''```''"
    by code_simp
  have h2: "HasPrefix (TrimSpace ''```'') ''```''"
    by code_simp
  have h3: "\<forall>raw \<in> set [''  # not a heading'', '''', ''  '', ''* x  ''].
      \<not> HasPrefix (TrimSpace raw) ''```''"
    by code_simp
  have e: "foldl appendCollapsing ([] @ [TrimSpace ''```go''])
             (map TrimSpace [''  # not a heading'', '''', ''  '', ''* x  '']) @
           [TrimSpace ''```''] =
           [''```go'', ''# not a heading'', '''', ''* x'', ''```'']"
    by code_simp
  show ?thesis
    using fenced_lines_trimmed_only
      [where maxLen = 4096 and opts = DefaultMarkdownOptions and result = "[]", OF h1 h2 h3]
    by (simp only: e)
qed

text \<open>
  The claim as stated fails: inside the fence the indentation of a line is removed and
  the second of two blank lines is dropped.
\<close>

theorem fence_verbatim_counterexample:
  "cleanupMarkdownText 4096 DefaultMarkdownOptions
     ''```\<newline>    indented\<newline>\<newline>\<newline>done\<newline>```'' =
     Inr ''```\<newline>indented\<newline>\<newline>done\<newline>```''"
  by code_simp

subsection \<open>C3: the text colour of links\<close>




subsection \<open>C4: a negative heading level\<close>

text \<open>
  Claim C4 says that \<open>cleanupMarkdownText\<close> returns for every input. It does not: for
  the line \<open># Title\<close> and an adjustment of \<open>-2\<close> the count passed to
  \<open>strings.Repeat\<close> is \<open>-1\<close>, and the call panics.
\<close>

theorem cleanup_negative_level_panics:
  "cleanupMarkdownText maxLen (DefaultMarkdownOptions\<lparr>HeaderLevelAdjust := - 2\<rparr>)
     ''# Title'' =
     Inl NegativeRepeatCount"
  by code_simp

subsection \<open>C5: numbered items\<close>

text \<open>
  Claim C5 says that a numbered item is emitted as the number, a dot, one space and the
  text. The code leaves the space out: \<open>1. first\<close> becomes \<open>1.first\<close>.
\<close>

theorem numbered_item_loses_space:
  "cleanupMarkdownText maxLen DefaultMarkdownOptions ''1. first'' = Inr ''1.first''"
  by code_simp

subsection \<open>C6: cleaning up twice\<close>

text \<open>
  Claim C6, as the code has it. Let the text be shorter than \<open>2^63\<close> bytes and no longer
  than \<open>strings.Repeat\<close> can allocate, as every Go string in memory is, and let every
  line that starts with \<open>#\<close> after trimming have no further \<open>#\<close> after its leading
  run, the adjustment being 0 if there is such a line. Then the cleanup returns, and
  cleaning its result again gives the same result. The text need not be normalized
  beforehand.
\<close>

theorem cleanup_idempotent:
  assumes len: "length T < 2 ^ 63"
    and fit: "length T \<le> maxLen"
    and headings: "\<forall>raw \<in> set (Split T CHR 0x0A).
        HasPrefix (TrimSpace raw) ''#'' \<longrightarrow>
          HeaderLevelAdjust opts = 0 \<and> CHR ''#'' \<notin> set (TrimLeft (TrimSpace raw) ''#'')"
  shows "\<exists>T1. cleanupMarkdownText maxLen opts T = Inr T1 \<and>
           cleanupMarkdownText maxLen opts T1 = Inr T1"
proof -
  have lines: "\<forall>raw \<in> set (Split T CHR 0x0A).
      headingsPlain opts raw \<and> length raw < 2 ^ 63 \<and> length raw \<le> maxLen \<and>
      CHR 0x0A \<notin> set raw"
    using headings len fit Split_elems [of _ T "CHR 0x0A"]
    unfolding headingsPlain_def by (meson le_less_trans le_trans)
  have "cleanupLoop maxLen opts ([], False) [] = Inr ([], False)"
    by simp
  from cleanupLoop_again [OF lines this] Split_nonempty [of T "CHR 0x0A"] obtain r' c' where
    run: "cleanupLoop maxLen opts ([], False) (Split T CHR 0x0A) = Inr (r', c')" and
    again: "cleanupLoop maxLen opts ([], False) r' = Inr (r', c')" and
    no_nl: "\<forall>l \<in> set r'. CHR 0x0A \<notin> set l" and
    ne: "r' \<noteq> []"
    by auto
  have "Split (Join r' nl) CHR 0x0A = r'"
    unfolding nl_def by (rule Split_Join [OF ne no_nl])
  with run again show ?thesis
    by (simp add: cleanupMarkdownText_def)
qed

theorem cleanup_idempotent_witness:
  "cleanupMarkdownText 4096
     \<lparr>HeaderLevelAdjust = 0, AddFrontmatter = True, CleanupText = True\<rparr>
     ''#Title\<newline>\<newline>\<newline>*  a\<newline>1.  b\<newline>```\<newline>  x\<newline>```'' =
     Inr ''# Title\<newline>\<newline>- a\<newline>1.b\<newline>```\<newline>x\<newline>```'' \<and>
   cleanupMarkdownText 4096
     \<lparr>HeaderLevelAdjust = 0, AddFrontmatter = True, CleanupText = True\<rparr>
     ''# Title\<newline>\<newline>- a\<newline>1.b\<newline>```\<newline>x\<newline>```'' =
     Inr ''# Title\<newline>\<newline>- a\<newline>1.b\<newline>```\<newline>x\<newline>```''"
proof -
  let ?opts = "\<lparr>HeaderLevelAdjust = 0, AddFrontmatter = True, CleanupText = True\<rparr>"
  let ?T = "''#Title\<newline>\<newline>\<newline>*  a\<newline>1.  b\<newline>```\<newline>  x\<newline>```''"
  have len: "length ?T < 2 ^ 63"
    by simp
  have fit: "length ?T \<le> 4096"
    by simp
  have headings: "\<forall>raw \<in> set (Split ?T CHR 0x0A).
        HasPrefix (TrimSpace raw) ''#'' \<longrightarrow>
          HeaderLevelAdjust ?opts = 0 \<and> CHR ''#'' \<notin> set (TrimLeft (TrimSpace raw) ''#'')"
    by code_simp
  have first: "cleanupMarkdownText 4096 ?opts ?T =
      Inr ''# Title\<newline>\<newline>- a\<newline>1.b\<newline>```\<newline>x\<newline>```''"
    by code_simp
  from cleanup_idempotent [OF len fit headings] first show ?thesis
    by auto
qed

text \<open>
  The claim as stated fails: with the default adjustment of 1, the normalized text
  \<open># Title\<close> is cleaned to \<open>## Title\<close>, and that to \<open>### Title\<close>.
\<close>

theorem cleanup_idempotent_counterexample:
  "cleanupMarkdownText 4096 DefaultMarkdownOptions ''# Title'' = Inr ''## Title'' \<and>
   cleanupMarkdownText 4096 DefaultMarkdownOptions ''## Title'' = Inr ''### Title''"
  by code_simp

subsection \<open>C7: the font of a heading\<close>

text \<open>
  Claim C7, as the code has it. The bold fonts that a rendering sets are, in the order
  of the document, the main font in bold at \<open>16 - L\<close> points for each heading of level
  \<open>L\<close>: the size does not depend on the base font size and is not clamped. When all
  levels are between 1 and 6, every such size is between 10 and 15 points.
\<close>

theorem heading_font_size:
  "filter isBoldFont (fst (processMarkdown opts parse content)) =
     map (\<lambda>l. SetFont (MainFont opts) ''B'' (16 - real_of_int l))
       (headingLevels (parse content)) \<and>
   ((\<forall>l \<in> set (headingLevels (parse content)). 1 \<le> l \<and> l \<le> 6) \<longrightarrow>
    (\<forall>op \<in> set (fst (processMarkdown opts parse content)).
       isBoldFont op \<longrightarrow> (\<exists>pt. op = SetFont (MainFont opts) ''B'' pt \<and> 10 \<le> pt \<and> pt \<le> 15)))"
proof -
  have bold: "filter isBoldFont (fst (processMarkdown opts parse content)) =
     map (\<lambda>l. SetFont (MainFont opts) ''B'' (16 - real_of_int l))
       (headingLevels (parse content))"
    by (simp add: processMarkdown_def Let_def walk_bold_fonts)
  have "\<exists>pt. op = SetFont (MainFont opts) ''B'' pt \<and> 10 \<le> pt \<and> pt \<le> 15"
    if levels: "\<forall>l \<in> set (headingLevels (parse content)). 1 \<le> l \<and> l \<le> 6"
      and op: "op \<in> set (fst (processMarkdown opts parse content))" "isBoldFont op"
    for op
  proof -
    from op have "op \<in> set (filter isBoldFont (fst (processMarkdown opts parse content)))"
      by simp
    then obtain l where "l \<in> set (headingLevels (parse content))"
      and "op = SetFont (MainFont opts) ''B'' (16 - real_of_int l)"
      unfolding bold by auto
    with levels show ?thesis
      by auto
  qed
  with bold show ?thesis
    by blast
qed

theorem heading_font_size_witness:
  "headingLevels (Document [Heading 1 [Text ''a''], Paragraph [Text ''b''], Heading 6 []]) =
     [1, 6] \<and>
   filter isBoldFont
     (fst (processMarkdown DefaultPDFOptions
        (\<lambda>content. Document [Heading 1 [Text ''a''], Paragraph [Text ''b''], Heading 6 []])
        ''# a\<newline>\<newline>b\<newline>\<newline>###### '')) =
     [SetFont ''Arial'' ''B'' 15, SetFont ''Arial'' ''B'' 10]"
  using heading_font_size [of DefaultPDFOptions
      "\<lambda>content. Document [Heading 1 [Text ''a''], Paragraph [Text ''b''], Heading 6 []]"
      "''# a\<newline>\<newline>b\<newline>\<newline>###### ''"]
  by (simp add: DefaultPDFOptions_def)

text \<open>
  The claim as stated fails: with the default base size of 11 points a heading of level 1
  is set at 15 points, not at \<open>11 + (7 - 1) = 17\<close>.
\<close>

theorem heading_font_size_counterexample:
  "visit DefaultPDFOptions (Heading 1 []) (False, []) =
     (False, [SetFont ''Arial'' ''B'' 15, Ln 5]) \<and>
   FontSize DefaultPDFOptions + (7 - 1) = 17"
  by (simp add: DefaultPDFOptions_def)

subsection \<open>C8: runs of blank lines\<close>

text \<open>
  Claim C8. A line of the input is blank when trimming leaves nothing of it, an emitted
  line when it is the empty string: these are the tests the loop makes. Let the lines of
  the input be \<open>pre\<close>, then a run of one or more blank lines, then \<open>post\<close>, where
  the run is maximal: \<open>pre\<close> does not end and \<open>post\<close> does not begin with a blank line.
  If the loop returns, the emitted lines are those emitted for \<open>pre\<close>, then exactly one
  empty line, then lines whose first is not empty; and no two neighbouring emitted lines
  are both empty. The latter is kept by every iteration of the loop (lemma
  \<open>cleanupLine_noBlankPair\<close>).
\<close>

theorem blank_run_collapse:
  assumes run: "cleanupLoop maxLen opts ([], False) (pre @ blanks @ post) = Inr (out, c)"
    and blanks: "blanks \<noteq> []" "\<forall>b \<in> set blanks. TrimSpace b = []"
    and before: "pre = [] \<or> TrimSpace (last pre) \<noteq> []"
    and after: "post = [] \<or> TrimSpace (hd post) \<noteq> []"
  shows "\<exists>outPre outPost c'.
           cleanupLoop maxLen opts ([], False) pre = Inr (outPre, c') \<and>
           out = outPre @ [[]] @ outPost \<and>
           (outPre = [] \<or> last outPre \<noteq> []) \<and>
           (outPost = [] \<or> hd outPost \<noteq> []) \<and>
           noBlankPair out"
proof -
  from run obtain outPre c' where
    pre: "cleanupLoop maxLen opts ([], False) pre = Inr (outPre, c')" and
    rest: "cleanupLoop maxLen opts (outPre, c') (blanks @ post) = Inr (out, c)"
    by (auto simp: cleanupLoop_append split: sum.splits)
  have last_pre: "outPre = [] \<or> last outPre \<noteq> []"
  proof (cases "pre = []")
    case True
    with pre show ?thesis by simp
  next
    case False
    with before cleanupLoop_last_nonblank [OF pre] show ?thesis by simp
  qed
  then have "appendCollapsing outPre [] = outPre @ [[]]"
    by (auto simp: appendCollapsing_def)
  with rest blanks have post: "cleanupLoop maxLen opts (outPre @ [[]], c') post = Inr (out, c)"
    by (simp add: cleanupLoop_append cleanupLoop_blanks)
  from cleanupLoop_extends [OF post] after obtain outPost where
    "out = (outPre @ [[]]) @ outPost" "outPost = [] \<or> hd outPost \<noteq> []"
    by blast
  moreover have "noBlankPair out"
    using cleanupLoop_noBlankPair [OF run] by simp
  ultimately show ?thesis
    using pre last_pre by auto
qed

theorem blank_run_collapse_witness:
  "cleanupLoop 4096 DefaultMarkdownOptions ([], False)
     ([''# A'', ''text''] @ ['''', ''  '', ''''] @ [''- item'', '''', '''']) =
     Inr ([''## A'', ''text''] @ [[]] @ [''- item'', ''''], False) \<and>
   cleanupLoop 4096 DefaultMarkdownOptions ([], False) [''# A'', ''text''] =
     Inr ([''## A'', ''text''], False) \<and>
   noBlankPair ([''## A'', ''text''] @ [[]] @ [''- item'', ''''])"
proof -
  have run: "cleanupLoop 4096 DefaultMarkdownOptions ([], False)
     ([''# A'', ''text''] @ ['''', ''  '', ''''] @ [''- item'', '''', '''']) =
     Inr ([''## A'', ''text''] @ [[]] @ [''- item'', ''''], False)"
    by code_simp
  have blanks: "['''', ''  '', ''''] \<noteq> []" "\<forall>b \<in> set ['''', ''  '', '''']. TrimSpace b = []"
    by code_simp+
  have before: "[''# A'', ''text''] = [] \<or> TrimSpace (last [''# A'', ''text'']) \<noteq> []"
    by code_simp
  have after: "[''- item'', '''', ''''] = [] \<or> TrimSpace (hd [''- item'', '''', '''']) \<noteq> []"
    by code_simp
  have pre_run: "cleanupLoop 4096 DefaultMarkdownOptions ([], False) [''# A'', ''text''] =
     Inr ([''## A'', ''text''], False)"
    by code_simp
  from blank_run_collapse [OF run blanks before after]
  have "noBlankPair ([''## A'', ''text''] @ [[]] @ [''- item'', ''''])"
    by blast
  with run pre_run show ?thesis
    by (intro conjI)
qed

subsection \<open>C9: cleanup switched off\<close>

text \<open>
  Claim C9, as the code has it. When \<open>CleanupText\<close> is off, the extracted text is
  written as it is, after the front matter if there is one: no line is classified,
  rewritten or trimmed.
\<close>

theorem cleanup_disabled_keeps_text:
  "\<not> CleanupText opts \<Longrightarrow>
     PDFToMarkdown maxLen opts title date extractedText =
       Inr ((if AddFrontmatter opts then frontmatter title date else []) @ extractedText)"
  by (simp add: PDFToMarkdown_def)

theorem cleanup_disabled_keeps_text_witness:
  "PDFToMarkdown 4096 \<lparr>HeaderLevelAdjust = 1, AddFrontmatter = True, CleanupText = False\<rparr>
     ''notes'' ''2024-05-01'' ''  # a  \<newline>\<newline>\<newline>* b'' =
   Inr (''---\<newline>title: notes\<newline>source: remarkable\<newline>date: 2024-05-01\<newline>---\<newline>\<newline>'' @
        ''  # a  \<newline>\<newline>\<newline>* b'')"
  using cleanup_disabled_keeps_text
    [where maxLen = 4096 and title = "''notes''" and date = "''2024-05-01''"
      and opts = "\<lparr>HeaderLevelAdjust = 1, AddFrontmatter = True, CleanupText = False\<rparr>"
      and extractedText = "''  # a  \<newline>\<newline>\<newline>* b''"]
  by (simp add: frontmatter_def nl_def)

text \<open>
  The claim as stated fails: the two lines keep their leading and trailing white space,
  while trimming each line would give \<open>a\<close> and \<open>b\<close>.
\<close>

theorem cleanup_disabled_counterexample:
  "PDFToMarkdown 4096 \<lparr>HeaderLevelAdjust = 1, AddFrontmatter = False, CleanupText = False\<rparr>
     ''notes'' ''2024-05-01'' ''  a  \<newline> b '' = Inr ''  a  \<newline> b '' \<and>
   Join (map TrimSpace (Split ''  a  \<newline> b '' CHR 0x0A)) nl = ''a\<newline>b''"
  by code_simp

subsection \<open>C10: parse errors\<close>

text \<open>
  Claim C10, as the code has it. \<open>processMarkdown\<close> returns no error: for every content
  and whatever tree the parser returns for it, the tree is walked to its end and the
  result is \<open>nil\<close>.
\<close>

theorem processMarkdown_returns_nil:
  "snd (processMarkdown opts parse content) = None"
  by (simp add: processMarkdown_def Let_def)

text \<open>
  The claim as stated fails: for the content with an unterminated fence, no parser makes
  \<open>processMarkdown\<close> return an error.
\<close>

theorem parse_error_counterexample:
  "\<not> (\<exists>parse. snd (processMarkdown DefaultPDFOptions parse ''```\<newline>code'') \<noteq> None)"
  by (simp add: processMarkdown_def Let_def)

end
